theory Spec2Isabelle
  imports Main "HOL-Library.Sublist" "HOL-Library.Code_Target_Nat"
begin

section \<open>Data model\<close>

text \<open>
  The orchestration core of the repository: \<^verbatim>\<open>src/lib/orchestrator/workflow-parser.ts\<close>
  (graph queries and validation), \<^verbatim>\<open>src/lib/orchestrator/state-manager.ts\<close> (the
  persisted run state) and \<^verbatim>\<open>src/lib/orchestrator/index.ts\<close> (the master
  orchestrator), together with \<^verbatim>\<open>processStrategyDecision\<close> of the strategy agent.

  Strings are \<open>string\<close>. The field \<^verbatim>\<open>id\<close> of a node, of a state row and of a
  decision row is written \<open>node_id\<close>, \<open>state_id\<close> and \<open>dec_id\<close> (\<open>id\<close> is the
  identity function of HOL). Wall-clock columns (\<^verbatim>\<open>createdAt\<close>, \<^verbatim>\<open>updatedAt\<close>,
  \<^verbatim>\<open>approvedAt\<close>) and the opaque \<^verbatim>\<open>metadata\<close> bag of a state row are left out: no
  modelled function reads them.
\<close>

datatype WorkflowStatus = Running | Paused | Completed | Failed

text \<open>
  \<^verbatim>\<open>parseWorkflowYAML\<close> copies \<^verbatim>\<open>retryPolicy\<close> from the YAML document as it is, so
  the policy and each of its two numbers may be absent (\<open>None\<close>). The numbers are
  non-negative integers.
\<close>

record RetryPolicy =
  maxRetries :: "nat option"
  backoffMs :: "nat option"

record WorkflowNode =
  node_id :: string
  name :: string
  agentId :: string
  dependencies :: "string list"
  requiresApproval :: bool
  retryPolicy :: "RetryPolicy option"
  runQA :: bool
  runCodeReview :: bool

record Workflow =
  wf_name :: string
  nodes :: "WorkflowNode list"

record WorkflowState =
  state_id :: string
  projectId :: string
  currentNode :: "string option"
  completedNodes :: "string list"
  failedNodes :: "string list"
  pendingDecisions :: "string list"
  status :: WorkflowStatus

datatype DecisionStatus = Pending | Approved | Rejected

text \<open>
  A row of the \<^verbatim>\<open>decisions\<close> table. \<open>dec_options\<close> holds the option ids of
  \<^verbatim>\<open>metadata.options\<close>; \<open>None\<close> stands for a metadata document without an
  \<^verbatim>\<open>options\<close> array, on which \<^verbatim>\<open>metadata.options.find\<close> throws.
\<close>

record Decision =
  dec_id :: string
  dec_projectId :: string
  dec_options :: "string list option"
  dec_status :: DecisionStatus
  selectedOption :: "string option"

text \<open>
  The value of \<^verbatim>\<open>agentResult.data\<close> (typed \<^verbatim>\<open>any\<close>), as far as
  \<^verbatim>\<open>agentResult.data && 'decision_id' in agentResult.data\<close> tells values apart: a falsy
  value, a truthy value that is not an object (the \<^verbatim>\<open>in\<close> operator throws a
  TypeError on it), or an object, with the value of its \<^verbatim>\<open>decision_id\<close> key when
  it has one.
\<close>

datatype AgentData = Falsy | Primitive | Object "string option"

record AgentOutput =
  success :: bool
  data :: AgentData

datatype AgentOutcome = Throws | Returns AgentOutput

text \<open>
  The agent registry of \<^verbatim>\<open>runAgent\<close>: \<open>None\<close> for an unknown agent id. What an
  agent returns is outside the core, so an agent is an oracle: its outcome as a function
  of the number of agent invocations made before this one.
\<close>

type_synonym Agents = "string \<Rightarrow> (nat \<Rightarrow> AgentOutcome) option"

datatype ToolOutcome = ToolThrows | ToolReturns bool

text \<open>
  \<^verbatim>\<open>executeTool\<close>, as an oracle too: the outcome of a tool action as a function of
  the number of tool calls made before (\<open>ToolReturns b\<close> is a result whose
  \<^verbatim>\<open>success\<close> is \<open>b\<close>).
\<close>

type_synonym Tools = "string \<Rightarrow> nat \<Rightarrow> ToolOutcome"

datatype error =
    StateNotFound
  | AgentNotFound
  | AgentThrew
  | AgentFailed
  | NotAnObject
  | DecisionNotFound
  | NoOptions
  | InvalidOption
  | CalendarFailed
  | ToolThrew

text \<open>The events the orchestrator hands to \<^verbatim>\<open>logEvent\<close>.\<close>

datatype LogEvent =
    WorkflowStarted
  | WorkflowCompleted
  | NodeStarting string
  | NodeAwaitingApproval string string
  | NodeCompleted string
  | NodeFailed string nat
  | DecisionApproved string string
  | StrategyApproved string string

text \<open>
  An entry of the timeline of the executor: a delegate was invoked (with its agent id),
  or the executor waited on a timer that ran for the given number of milliseconds.
\<close>

datatype Action = Invoked string | Slept nat

text \<open>
  Everything the orchestrator reads or writes: the two tables, the event log, and the
  record of what was asked of the collaborators (agent invocations, advisory checks, tool
  calls, backoff sleeps in milliseconds), each in the order it happened. The
  \<open>timeline\<close> holds the agent invocations and the backoff sleeps together, in the one
  order in which they happened.
\<close>

record World =
  workflowStates :: "WorkflowState list"
  decisions :: "Decision list"
  events :: "LogEvent list"
  agentCalls :: "string list"
  advisoryCalls :: "string list"
  toolCalls :: "string list"
  sleeps :: "nat list"
  timeline :: "Action list"

section \<open>The state manager\<close>

text \<open>
  \<^verbatim>\<open>logEvent\<close> inserts a row into the log table and returns; the orchestrator never
  reads the table. (An insert that the database rejects is outside the model.)
\<close>

definition logEvent :: "LogEvent \<Rightarrow> World \<Rightarrow> World" where
  "logEvent e w = w\<lparr>events := events w @ [e]\<rparr>"

text \<open>
  \<^verbatim>\<open>createWorkflowState\<close>: an insert with no check for an existing row. The new
  row's id (\<^verbatim>\<open>nanoid()\<close>) is an argument. Rows are kept in insertion order.
\<close>

definition createWorkflowState :: "World \<Rightarrow> string \<Rightarrow> string \<Rightarrow> World" where
  "createWorkflowState w pid sid =
     w\<lparr>workflowStates := workflowStates w @
        [\<lparr>state_id = sid, projectId = pid, currentNode = None, completedNodes = [],
          failedNodes = [], pendingDecisions = [], status = Running\<rparr>]\<rparr>"

text \<open>\<^verbatim>\<open>getWorkflowState\<close>: the oldest row of the project, if any.\<close>

definition getWorkflowState :: "World \<Rightarrow> string \<Rightarrow> WorkflowState option" where
  "getWorkflowState w pid = find (\<lambda>r. projectId r = pid) (workflowStates w)"

text \<open>
  The \<^verbatim>\<open>Partial<WorkflowState>\<close> argument of \<^verbatim>\<open>updateWorkflowState\<close>: \<open>None\<close>
  is a field left out. \<^verbatim>\<open>currentNode\<close> is written whenever it is not
  \<^verbatim>\<open>undefined\<close>, so \<open>Some None\<close> writes \<^verbatim>\<open>null\<close>. The lists are written when
  given (an empty array is truthy), and so is the status (no status is the empty string).
\<close>

record StateUpdates =
  u_currentNode :: "string option option"
  u_completedNodes :: "string list option"
  u_failedNodes :: "string list option"
  u_pendingDecisions :: "string list option"
  u_status :: "WorkflowStatus option"

definition noUpdates :: StateUpdates where
  "noUpdates = \<lparr>u_currentNode = None, u_completedNodes = None, u_failedNodes = None,
     u_pendingDecisions = None, u_status = None\<rparr>"

definition applyUpdates :: "StateUpdates \<Rightarrow> WorkflowState \<Rightarrow> WorkflowState" where
  "applyUpdates u r =
     r\<lparr>currentNode := (case u_currentNode u of None \<Rightarrow> currentNode r | Some c \<Rightarrow> c),
       completedNodes := (case u_completedNodes u of None \<Rightarrow> completedNodes r | Some l \<Rightarrow> l),
       failedNodes := (case u_failedNodes u of None \<Rightarrow> failedNodes r | Some l \<Rightarrow> l),
       pendingDecisions := (case u_pendingDecisions u of None \<Rightarrow> pendingDecisions r | Some l \<Rightarrow> l),
       status := (case u_status u of None \<Rightarrow> status r | Some s \<Rightarrow> s)\<rparr>"

text \<open>\<^verbatim>\<open>updateWorkflowState\<close>: every row of the project is updated; no row is no error.\<close>

definition updateWorkflowState :: "World \<Rightarrow> string \<Rightarrow> StateUpdates \<Rightarrow> World" where
  "updateWorkflowState w pid u =
     w\<lparr>workflowStates :=
         map (\<lambda>r. if projectId r = pid then applyUpdates u r else r) (workflowStates w)\<rparr>"

definition markNodeComplete :: "World \<Rightarrow> string \<Rightarrow> string \<Rightarrow> error + World" where
  "markNodeComplete w pid nodeId =
     (case getWorkflowState w pid of
        None \<Rightarrow> Inl StateNotFound
      | Some state \<Rightarrow>
          Inr (updateWorkflowState w pid
                 (noUpdates\<lparr>u_completedNodes := Some (completedNodes state @ [nodeId]),
                            u_currentNode := Some None\<rparr>)))"

definition markNodeFailed :: "World \<Rightarrow> string \<Rightarrow> string \<Rightarrow> error + World" where
  "markNodeFailed w pid nodeId =
     (case getWorkflowState w pid of
        None \<Rightarrow> Inl StateNotFound
      | Some state \<Rightarrow>
          Inr (updateWorkflowState w pid
                 (noUpdates\<lparr>u_failedNodes := Some (failedNodes state @ [nodeId]),
                            u_currentNode := Some None,
                            u_status := Some Failed\<rparr>)))"

definition addPendingDecision :: "World \<Rightarrow> string \<Rightarrow> string \<Rightarrow> error + World" where
  "addPendingDecision w pid decisionId =
     (case getWorkflowState w pid of
        None \<Rightarrow> Inl StateNotFound
      | Some state \<Rightarrow>
          Inr (updateWorkflowState w pid
                 (noUpdates\<lparr>u_pendingDecisions := Some (pendingDecisions state @ [decisionId]),
                            u_status := Some Paused\<rparr>)))"

definition removePendingDecision :: "World \<Rightarrow> string \<Rightarrow> string \<Rightarrow> error + World" where
  "removePendingDecision w pid decisionId =
     (case getWorkflowState w pid of
        None \<Rightarrow> Inl StateNotFound
      | Some state \<Rightarrow>
          (let pending = filter (\<lambda>i. i \<noteq> decisionId) (pendingDecisions state)
           in Inr (updateWorkflowState w pid
                     (noUpdates\<lparr>u_pendingDecisions := Some pending,
                                u_status := Some (if length pending > 0 then Paused else Running)\<rparr>))))"

definition setCurrentNode :: "World \<Rightarrow> string \<Rightarrow> string \<Rightarrow> World" where
  "setCurrentNode w pid nodeId =
     updateWorkflowState w pid (noUpdates\<lparr>u_currentNode := Some (Some nodeId)\<rparr>)"

definition completeWorkflow :: "World \<Rightarrow> string \<Rightarrow> World" where
  "completeWorkflow w pid =
     updateWorkflowState w pid
       (noUpdates\<lparr>u_status := Some Completed, u_currentNode := Some None\<rparr>)"

definition deleteWorkflowState :: "World \<Rightarrow> string \<Rightarrow> World" where
  "deleteWorkflowState w pid =
     w\<lparr>workflowStates := filter (\<lambda>r. projectId r \<noteq> pid) (workflowStates w)\<rparr>"

text \<open>\<^verbatim>\<open>cancelWorkflow\<close>, which is all that the stop route calls.\<close>

definition cancelWorkflow :: "World \<Rightarrow> string \<Rightarrow> World" where
  "cancelWorkflow w pid =
     updateWorkflowState w pid
       (noUpdates\<lparr>u_status := Some Failed, u_currentNode := Some None\<rparr>)"

section \<open>The workflow graph\<close>

definition areDependenciesSatisfied :: "WorkflowNode \<Rightarrow> string list \<Rightarrow> bool" where
  "areDependenciesSatisfied node completed =
     list_all (\<lambda>dep. dep \<in> set completed) (dependencies node)"

definition getNextNodes :: "Workflow \<Rightarrow> string list \<Rightarrow> string list \<Rightarrow> WorkflowNode list" where
  "getNextNodes workflow completed failed =
     filter (\<lambda>node.
        if node_id node \<in> set completed \<or> node_id node \<in> set failed then False
        else areDependenciesSatisfied node completed) (nodes workflow)"

text \<open>
  The closure \<^verbatim>\<open>hasCycle\<close> of \<^verbatim>\<open>validateWorkflow\<close> and its \<^verbatim>\<open>for\<close> loop over the
  dependencies of a node. The two sets that the closure mutates, \<^verbatim>\<open>visited\<close> and
  \<^verbatim>\<open>recursionStack\<close>, are passed in and returned. When a cycle is found the function
  returns at once, and the nodes on the path stay in \<^verbatim>\<open>recursionStack\<close>.
\<close>

function hasCycle :: "Workflow \<Rightarrow> string \<Rightarrow> string set \<times> string set \<Rightarrow> bool \<times> string set \<times> string set"
  and hasCycleDeps :: "Workflow \<Rightarrow> string list \<Rightarrow> string set \<times> string set \<Rightarrow> bool \<times> string set \<times> string set"
where
  "hasCycle workflow nodeId (visited, recursionStack) =
     (if nodeId \<in> recursionStack then (True, visited, recursionStack)
      else if nodeId \<in> visited then (False, visited, recursionStack)
      else
        (case find (\<lambda>n. node_id n = nodeId) (nodes workflow) of
           None \<Rightarrow> (False, insert nodeId visited, insert nodeId recursionStack - {nodeId})
         | Some node \<Rightarrow>
             (case hasCycleDeps workflow (dependencies node)
                     (insert nodeId visited, insert nodeId recursionStack) of
                (True, st) \<Rightarrow> (True, st)
              | (False, visited', recursionStack') \<Rightarrow>
                  (False, visited', recursionStack' - {nodeId}))))"
| "hasCycleDeps workflow [] st = (False, st)"
| "hasCycleDeps workflow (dep # deps) st =
     (case hasCycle workflow dep st of
        (True, st') \<Rightarrow> (True, st')
      | (False, st') \<Rightarrow> hasCycleDeps workflow deps st')"
  by pat_completeness auto

lemma hasCycle_visited_grows:
  "hasCycle_hasCycleDeps_dom (Inl (workflow, nodeId, st)) \<Longrightarrow>
     fst st \<subseteq> fst (snd (hasCycle workflow nodeId st))"
  "hasCycle_hasCycleDeps_dom (Inr (workflow, deps, st)) \<Longrightarrow>
     fst st \<subseteq> fst (snd (hasCycleDeps workflow deps st))"
proof (induct workflow nodeId st and workflow deps st rule: hasCycle_hasCycleDeps.pinduct)
  case (1 workflow nodeId visited recursionStack)
  then show ?case
    by (auto simp: hasCycle.psimps split: option.splits prod.splits bool.splits)
next
  case (2 workflow st)
  then show ?case by (simp add: hasCycleDeps.psimps)
next
  case (3 workflow dep deps st)
  obtain b st' where hc: "hasCycle workflow dep st = (b, st')" by (cases "hasCycle workflow dep st")
  from 3(2) hc have a: "fst st \<subseteq> fst st'" by simp
  show ?case
  proof (cases b)
    case True
    then show ?thesis using a by (simp add: hasCycleDeps.psimps(2) [OF 3(1)] hc)
  next
    case False
    with 3(3) [of b st'] hc have "fst st' \<subseteq> fst (snd (hasCycleDeps workflow deps st'))"
      by simp
    with a False show ?thesis by (auto simp add: hasCycleDeps.psimps(2) [OF 3(1)] hc)
  qed
qed

termination hasCycle
proof (relation "inv_image (less_than <*lex*> less_than)
    (\<lambda>x. case x of
       Inl (workflow, nodeId, st) \<Rightarrow> (card (node_id ` set (nodes workflow) - fst st), 0)
     | Inr (workflow, deps, st) \<Rightarrow> (card (node_id ` set (nodes workflow) - fst st), Suc (length deps)))",
    goal_cases)
  case 1
  show ?case by (intro wf_inv_image wf_lex_prod wf_less_than)
next
  case (2 workflow nodeId visited recursionStack node)
  then have "nodeId \<in> node_id ` set (nodes workflow)"
    by (auto simp: find_Some_iff)
  with 2 have "card (node_id ` set (nodes workflow) - insert nodeId visited)
                < card (node_id ` set (nodes workflow) - visited)"
    by (intro psubset_card_mono) auto
  then show ?case by simp
next
  case (3 workflow dep deps st)
  show ?case by simp
next
  case (4 workflow dep deps st x y)
  from hasCycle_visited_grows(1) [OF 4(3)] 4(1)
  have "fst st \<subseteq> fst y" by (metis snd_conv)
  then have "card (node_id ` set (nodes workflow) - fst y)
               \<le> card (node_id ` set (nodes workflow) - fst st)"
    by (intro card_mono) auto
  then show ?case by auto
qed

declare hasCycle.simps [simp del]

text \<open>The first loop of \<^verbatim>\<open>validateWorkflow\<close>, over the nodes in declaration order.\<close>

fun cycleErrors :: "Workflow \<Rightarrow> WorkflowNode list \<Rightarrow> string set \<times> string set \<Rightarrow> string list" where
  "cycleErrors workflow [] st = []"
| "cycleErrors workflow (node # rest) st =
     (case hasCycle workflow (node_id node) st of
        (True, st') \<Rightarrow>
          (''Circular dependency detected involving node: '' @ node_id node)
            # cycleErrors workflow rest st'
      | (False, st') \<Rightarrow> cycleErrors workflow rest st')"

text \<open>The second loop: one error for each dependency that names no node.\<close>

definition missingDependencyErrors :: "Workflow \<Rightarrow> string list" where
  "missingDependencyErrors workflow =
     concat (map (\<lambda>node.
               map (\<lambda>dep. ''Node '' @ node_id node @ '' depends on non-existent node: '' @ dep)
                 (filter (\<lambda>dep. \<not> list_ex (\<lambda>n. node_id n = dep) (nodes workflow))
                    (dependencies node)))
             (nodes workflow))"

record ValidationResult =
  valid :: bool
  errors :: "string list"

definition validateWorkflow :: "Workflow \<Rightarrow> ValidationResult" where
  "validateWorkflow workflow =
     (let errs = cycleErrors workflow (nodes workflow) ({}, {}) @ missingDependencyErrors workflow
      in \<lparr>valid = (length errs = 0), errors = errs\<rparr>)"

section \<open>The node executor\<close>

text \<open>\<^verbatim>\<open>x || d\<close> on an optional number: an absent or zero \<open>x\<close> gives \<open>d\<close>.\<close>

definition orDefault :: "nat option \<Rightarrow> nat \<Rightarrow> nat" where
  "orDefault x d = (case x of None \<Rightarrow> d | Some n \<Rightarrow> if n = 0 then d else n)"

text \<open>
  The optional chains \<^verbatim>\<open>node.retryPolicy?.maxRetries\<close> and
  \<^verbatim>\<open>node.retryPolicy?.backoffMs\<close>.
\<close>

definition configuredMaxRetries :: "WorkflowNode \<Rightarrow> nat option" where
  "configuredMaxRetries node = (case retryPolicy node of None \<Rightarrow> None | Some p \<Rightarrow> maxRetries p)"

definition configuredBackoff :: "WorkflowNode \<Rightarrow> nat option" where
  "configuredBackoff node = (case retryPolicy node of None \<Rightarrow> None | Some p \<Rightarrow> backoffMs p)"

text \<open>\<^verbatim>\<open>node.retryPolicy?.maxRetries || 0\<close> and \<^verbatim>\<open>node.retryPolicy?.backoffMs || 1000\<close>.\<close>

definition maxRetriesOf :: "WorkflowNode \<Rightarrow> nat" where
  "maxRetriesOf node = orDefault (configuredMaxRetries node) 0"

definition backoffOf :: "WorkflowNode \<Rightarrow> nat" where
  "backoffOf node = orDefault (configuredBackoff node) 1000"

definition runAgent :: "Agents \<Rightarrow> string \<Rightarrow> World \<Rightarrow> (error + AgentOutput) \<times> World" where
  "runAgent ag aid w =
     (case ag aid of
        None \<Rightarrow> (Inl AgentNotFound, w)
      | Some run \<Rightarrow>
          (let w1 = w\<lparr>agentCalls := agentCalls w @ [aid],
                        timeline := timeline w @ [Invoked aid]\<rparr>
           in case run (length (agentCalls w)) of
                Throws \<Rightarrow> (Inl AgentThrew, w1)
              | Returns out \<Rightarrow> (Inr out, w1)))"

text \<open>
  \<^verbatim>\<open>qaAgent.run\<close> and \<^verbatim>\<open>codeReviewAgent.run\<close> catch every error of their own and
  the orchestrator only logs a warning on their verdict: the checks are recorded, and
  change nothing else.
\<close>

definition runAdvisory :: "string \<Rightarrow> World \<Rightarrow> World" where
  "runAdvisory checker w = w\<lparr>advisoryCalls := advisoryCalls w @ [checker]\<rparr>"

text \<open>The two \<^verbatim>\<open>if (node.runQA)\<close> and \<^verbatim>\<open>if (node.runCodeReview)\<close> blocks.\<close>

definition runChecks :: "WorkflowNode \<Rightarrow> World \<Rightarrow> World" where
  "runChecks node w1 =
     (let w2 = (if runQA node then runAdvisory ''qa_agent'' w1 else w1);
          w3 = (if runCodeReview node then runAdvisory ''code_review_agent'' w2 else w2)
      in w3)"

text \<open>
  \<^verbatim>\<open>await new Promise(resolve => setTimeout(resolve, delay))\<close>. The timer is that
  of Node.js, which runs a delay of \<open>1\<close> to \<open>2\<^sup>3\<^sup>1 - 1\<close> milliseconds as it is and
  replaces any other delay (below 1, above \<^verbatim>\<open>TIMEOUT_MAX\<close>, infinite) by 1 millisecond.
  The delay \<^verbatim>\<open>backoffMs * Math.pow(2, retries - 1)\<close> is a product of doubles: it is
  the exact product as long as that is below \<open>2\<^sup>5\<^sup>3\<close>, and above
  \<^verbatim>\<open>TIMEOUT_MAX\<close> whenever the exact product is, so the timer runs for
  \<open>timerDelay\<close> of the exact product.
\<close>

definition TIMEOUT_MAX :: nat where
  "TIMEOUT_MAX = 2147483647"

definition timerDelay :: "nat \<Rightarrow> nat" where
  "timerDelay ms = (if 1 \<le> ms \<and> ms \<le> TIMEOUT_MAX then ms else 1)"

text \<open>A backoff sleep: what is recorded is the time for which the timer ran.\<close>

definition sleep :: "nat \<Rightarrow> World \<Rightarrow> World" where
  "sleep ms w = w\<lparr>sleeps := sleeps w @ [timerDelay ms],
                  timeline := timeline w @ [Slept (timerDelay ms)]\<rparr>"

datatype NodeStatus = AwaitingApproval | NodeDone | NodeFail

record NodeResult =
  res_nodeId :: string
  res_status :: NodeStatus
  res_requiresApproval :: bool
  res_decisionId :: "string option"
  res_error :: "error option"

text \<open>
  The decision id that pauses the node, when
  \<^verbatim>\<open>node.requiresApproval\<close> and \<^verbatim>\<open>agentResult.data && 'decision_id' in agentResult.data\<close>
  hold; \<open>Inr None\<close> when control falls through to the completion of the node.
\<close>

definition approvalDecision :: "WorkflowNode \<Rightarrow> AgentOutput \<Rightarrow> error + string option" where
  "approvalDecision node out =
     (if requiresApproval node then
        (case data out of
           Falsy \<Rightarrow> Inr None
         | Primitive \<Rightarrow> Inl NotAnObject
         | Object k \<Rightarrow> Inr k)
      else Inr None)"

text \<open>
  The body of the \<^verbatim>\<open>try\<close> block of \<^verbatim>\<open>executeNode\<close>: \<open>Inl\<close> is an exception,
  which the \<^verbatim>\<open>catch\<close> of the loop receives; \<open>Inr\<close> is a \<^verbatim>\<open>return\<close>.
\<close>

definition tryBody :: "Agents \<Rightarrow> WorkflowNode \<Rightarrow> string \<Rightarrow> World \<Rightarrow> (error + NodeResult) \<times> World" where
  "tryBody ag node pid w =
     (case runAgent ag (agentId node) w of
        (Inl e, w1) \<Rightarrow> (Inl e, w1)
      | (Inr out, w1) \<Rightarrow>
          if \<not> success out then (Inl AgentFailed, w1)
          else
            (let w3 = runChecks node w1
             in case approvalDecision node out of
                  Inl e \<Rightarrow> (Inl e, w3)
                | Inr (Some d) \<Rightarrow>
                    (case addPendingDecision w3 pid d of
                       Inl e \<Rightarrow> (Inl e, w3)
                     | Inr w4 \<Rightarrow>
                         (Inr \<lparr>res_nodeId = node_id node, res_status = AwaitingApproval,
                               res_requiresApproval = True, res_decisionId = Some d,
                               res_error = None\<rparr>,
                          logEvent (NodeAwaitingApproval (node_id node) d) w4))
                | Inr None \<Rightarrow>
                    (case markNodeComplete w3 pid (node_id node) of
                       Inl e \<Rightarrow> (Inl e, w3)
                     | Inr w4 \<Rightarrow>
                         (Inr \<lparr>res_nodeId = node_id node, res_status = NodeDone,
                               res_requiresApproval = False, res_decisionId = None,
                               res_error = None\<rparr>,
                          logEvent (NodeCompleted (node_id node)) w4))))"

text \<open>
  The \<^verbatim>\<open>while (retries <= maxRetries)\<close> loop. \<open>Inr\<close> is a result returned from
  inside the loop; \<open>Inl (retries, lastError)\<close> is the loop left with its attempts
  used up.
\<close>

function retryLoop ::
  "Agents \<Rightarrow> WorkflowNode \<Rightarrow> string \<Rightarrow> nat \<Rightarrow> error option \<Rightarrow> World
     \<Rightarrow> ((nat \<times> error option) + NodeResult) \<times> World" where
  "retryLoop ag node pid retries lastError w =
     (if retries \<le> maxRetriesOf node then
        (case tryBody ag node pid w of
           (Inr res, w1) \<Rightarrow> (Inr res, w1)
         | (Inl e, w1) \<Rightarrow>
             retryLoop ag node pid (Suc retries) (Some e)
               (if Suc retries \<le> maxRetriesOf node
                then sleep (backoffOf node * 2 ^ (Suc retries - 1)) w1
                else w1))
      else (Inl (retries, lastError), w))"
  by pat_completeness auto
termination
  by (relation "measure (\<lambda>(ag, node, pid, retries, lastError, w). Suc (maxRetriesOf node) - retries)")
     auto

declare retryLoop.simps [simp del]

text \<open>
  \<^verbatim>\<open>executeNode\<close>. \<open>Inl\<close> is the promise rejected: only \<^verbatim>\<open>markNodeFailed\<close>, which
  stands outside the \<^verbatim>\<open>try\<close>, can do that.
\<close>

definition executeNode :: "Agents \<Rightarrow> WorkflowNode \<Rightarrow> string \<Rightarrow> World \<Rightarrow> (error + NodeResult) \<times> World" where
  "executeNode ag node pid w =
     (let w1 = setCurrentNode w pid (node_id node);
          w2 = logEvent (NodeStarting (node_id node)) w1
      in case retryLoop ag node pid 0 None w2 of
           (Inr res, w3) \<Rightarrow> (Inr res, w3)
         | (Inl (retries, lastError), w3) \<Rightarrow>
             (case markNodeFailed w3 pid (node_id node) of
                Inl e \<Rightarrow> (Inl e, w3)
              | Inr w4 \<Rightarrow>
                  (Inr \<lparr>res_nodeId = node_id node, res_status = NodeFail,
                        res_requiresApproval = False, res_decisionId = None,
                        res_error = lastError\<rparr>,
                   logEvent (NodeFailed (node_id node) retries) w4)))"

section \<open>The scheduler\<close>

text \<open>
  The \<^verbatim>\<open>for\<close> loop of \<^verbatim>\<open>executeNextNodes\<close>: nodes are executed in order, and
  the loop breaks after the first result that requires approval. An exception of
  \<^verbatim>\<open>executeNode\<close> leaves the loop and the function.
\<close>

fun executeBatch :: "Agents \<Rightarrow> string \<Rightarrow> WorkflowNode list \<Rightarrow> World \<Rightarrow> (error + NodeResult list) \<times> World" where
  "executeBatch ag pid [] w = (Inr [], w)"
| "executeBatch ag pid (node # rest) w =
     (case executeNode ag node pid w of
        (Inl e, w1) \<Rightarrow> (Inl e, w1)
      | (Inr result, w1) \<Rightarrow>
          if res_requiresApproval result then (Inr [result], w1)
          else
            (case executeBatch ag pid rest w1 of
               (Inl e, w2) \<Rightarrow> (Inl e, w2)
             | (Inr results, w2) \<Rightarrow> (Inr (result # results), w2)))"

text \<open>What \<^verbatim>\<open>executeNextNodes\<close>, \<^verbatim>\<open>startWorkflow\<close> and \<^verbatim>\<open>approveDecision\<close> return.\<close>

datatype RunResult =
    RunPaused "string list"
  | RunTerminal WorkflowStatus "string list" "string list"
  | RunCompleted "string list"
  | RunPausedBatch "NodeResult list"
  | DecisionFailed error

text \<open>
  The length of the remaining work of a run: nothing once the run is not running,
  otherwise one more than the number of nodes not yet in \<^verbatim>\<open>completedNodes\<close>.
\<close>

definition remaining :: "Workflow \<Rightarrow> string \<Rightarrow> World \<Rightarrow> nat" where
  "remaining workflow pid w =
     (case getWorkflowState w pid of
        None \<Rightarrow> 0
      | Some s \<Rightarrow>
          if status s = Running
          then Suc (length (filter (\<lambda>n. node_id n \<notin> set (completedNodes s)) (nodes workflow)))
          else 0)"

subsection \<open>What a batch leaves in the state row\<close>

text \<open>
  The run loop calls itself after a batch in which no node asked for approval. That it
  returns rests on what such a batch does to the state row: every node of the batch
  was completed, or the run has failed.
\<close>

lemma find_map_update:
  "find (\<lambda>r. projectId r = pid) (map (\<lambda>r. if projectId r = pid then applyUpdates u r else r) rs)
     = map_option (applyUpdates u) (find (\<lambda>r. projectId r = pid) rs)"
  by (induction rs) (auto simp: applyUpdates_def)

lemma projectId_applyUpdates [simp]: "projectId (applyUpdates u r) = projectId r"
  by (simp add: applyUpdates_def)

lemma state_id_applyUpdates [simp]: "state_id (applyUpdates u r) = state_id r"
  by (simp add: applyUpdates_def)

lemma getWorkflowState_update:
  "getWorkflowState (updateWorkflowState w pid u) pid
     = map_option (applyUpdates u) (getWorkflowState w pid)"
  by (simp add: getWorkflowState_def updateWorkflowState_def find_map_update)

lemma updateWorkflowState_frame [simp]:
  "decisions (updateWorkflowState w pid u) = decisions w"
  "events (updateWorkflowState w pid u) = events w"
  "agentCalls (updateWorkflowState w pid u) = agentCalls w"
  "advisoryCalls (updateWorkflowState w pid u) = advisoryCalls w"
  "toolCalls (updateWorkflowState w pid u) = toolCalls w"
  "sleeps (updateWorkflowState w pid u) = sleeps w"
  "timeline (updateWorkflowState w pid u) = timeline w"
  by (simp_all add: updateWorkflowState_def)

lemma logEvent_frame [simp]:
  "workflowStates (logEvent e w) = workflowStates w"
  "decisions (logEvent e w) = decisions w"
  "events (logEvent e w) = events w @ [e]"
  "agentCalls (logEvent e w) = agentCalls w"
  "advisoryCalls (logEvent e w) = advisoryCalls w"
  "toolCalls (logEvent e w) = toolCalls w"
  "sleeps (logEvent e w) = sleeps w"
  "timeline (logEvent e w) = timeline w"
  by (simp_all add: logEvent_def)

lemma runAdvisory_frame [simp]:
  "workflowStates (runAdvisory c w) = workflowStates w"
  "decisions (runAdvisory c w) = decisions w"
  "events (runAdvisory c w) = events w"
  "agentCalls (runAdvisory c w) = agentCalls w"
  "advisoryCalls (runAdvisory c w) = advisoryCalls w @ [c]"
  "toolCalls (runAdvisory c w) = toolCalls w"
  "sleeps (runAdvisory c w) = sleeps w"
  "timeline (runAdvisory c w) = timeline w"
  by (simp_all add: runAdvisory_def)

lemma runChecks_frame [simp]:
  "workflowStates (runChecks node w) = workflowStates w"
  "decisions (runChecks node w) = decisions w"
  "events (runChecks node w) = events w"
  "agentCalls (runChecks node w) = agentCalls w"
  "toolCalls (runChecks node w) = toolCalls w"
  "sleeps (runChecks node w) = sleeps w"
  "timeline (runChecks node w) = timeline w"
  by (simp_all add: runChecks_def)

lemma sleep_frame [simp]:
  "workflowStates (sleep ms w) = workflowStates w"
  "decisions (sleep ms w) = decisions w"
  "events (sleep ms w) = events w"
  "agentCalls (sleep ms w) = agentCalls w"
  "advisoryCalls (sleep ms w) = advisoryCalls w"
  "toolCalls (sleep ms w) = toolCalls w"
  "sleeps (sleep ms w) = sleeps w @ [timerDelay ms]"
  "timeline (sleep ms w) = timeline w @ [Slept (timerDelay ms)]"
  by (simp_all add: sleep_def)

lemma getWorkflowState_cong:
  "workflowStates w = workflowStates w' \<Longrightarrow> getWorkflowState w pid = getWorkflowState w' pid"
  by (simp add: getWorkflowState_def)

lemma getWorkflowState_frame [simp]:
  "getWorkflowState (logEvent e w) pid = getWorkflowState w pid"
  "getWorkflowState (runAdvisory c w) pid = getWorkflowState w pid"
  "getWorkflowState (runChecks node w) pid = getWorkflowState w pid"
  "getWorkflowState (sleep ms w) pid = getWorkflowState w pid"
  "getWorkflowState (w\<lparr>agentCalls := ac\<rparr>) pid = getWorkflowState w pid"
  "getWorkflowState (w\<lparr>sleeps := sl\<rparr>) pid = getWorkflowState w pid"
  "getWorkflowState (w\<lparr>timeline := tm\<rparr>) pid = getWorkflowState w pid"
  "getWorkflowState (w\<lparr>events := ev\<rparr>) pid = getWorkflowState w pid"
  "getWorkflowState (w\<lparr>decisions := ds\<rparr>) pid = getWorkflowState w pid"
  "getWorkflowState (w\<lparr>toolCalls := tc\<rparr>) pid = getWorkflowState w pid"
  "getWorkflowState (w\<lparr>advisoryCalls := av\<rparr>) pid = getWorkflowState w pid"
  by (simp_all add: getWorkflowState_def)

lemma setCurrentNode_frame [simp]:
  "decisions (setCurrentNode w pid n) = decisions w"
  "events (setCurrentNode w pid n) = events w"
  "agentCalls (setCurrentNode w pid n) = agentCalls w"
  "advisoryCalls (setCurrentNode w pid n) = advisoryCalls w"
  "toolCalls (setCurrentNode w pid n) = toolCalls w"
  "sleeps (setCurrentNode w pid n) = sleeps w"
  "timeline (setCurrentNode w pid n) = timeline w"
  by (simp_all add: setCurrentNode_def)

lemma runAgent_frame:
  "sleeps (snd (runAgent ag aid w)) = sleeps w"
  "workflowStates (snd (runAgent ag aid w)) = workflowStates w"
  "decisions (snd (runAgent ag aid w)) = decisions w"
  "toolCalls (snd (runAgent ag aid w)) = toolCalls w"
  by (simp_all add: runAgent_def Let_def split: option.splits AgentOutcome.splits)

lemma getWorkflowState_setCurrentNode:
  "getWorkflowState (setCurrentNode w pid n) pid
     = map_option (\<lambda>s. s\<lparr>currentNode := Some n\<rparr>) (getWorkflowState w pid)"
  by (cases "getWorkflowState w pid")
     (simp_all add: setCurrentNode_def getWorkflowState_update applyUpdates_def noUpdates_def)

lemma tryBody_Inl_states:
  "tryBody ag node pid w = (Inl e, w') \<Longrightarrow> workflowStates w' = workflowStates w"
  using runAgent_frame(2) [of ag "agentId node" w]
  by (cases "runAgent ag (agentId node) w")
     (auto simp: tryBody_def Let_def split: sum.splits if_splits option.splits)

lemma tryBody_Inr_states:
  assumes "tryBody ag node pid w = (Inr res, w')" and "\<not> res_requiresApproval res"
    and "getWorkflowState w pid = Some s"
  shows "getWorkflowState w' pid =
           Some (s\<lparr>currentNode := None, completedNodes := completedNodes s @ [node_id node]\<rparr>)"
proof -
  obtain r w1 where ra: "runAgent ag (agentId node) w = (r, w1)" by force
  have g: "getWorkflowState w1 pid = Some s"
    using runAgent_frame(2) [of ag "agentId node" w] ra assms(3)
    by (simp add: getWorkflowState_def)
  show ?thesis
    using assms(1,2) g
    by (auto simp: tryBody_def ra Let_def markNodeComplete_def getWorkflowState_update
          applyUpdates_def noUpdates_def
        split: sum.splits if_splits option.splits)
qed

lemma retryLoop_states:
  assumes "getWorkflowState w pid = Some s"
  shows "(case retryLoop ag node pid retries lastError w of
            (Inl x, w') \<Rightarrow> workflowStates w' = workflowStates w
          | (Inr res, w') \<Rightarrow> res_requiresApproval res \<or>
              getWorkflowState w' pid =
                Some (s\<lparr>currentNode := None, completedNodes := completedNodes s @ [node_id node]\<rparr>))"
  using assms
proof (induction ag node pid retries lastError w rule: retryLoop.induct)
  case (1 ag node pid retries lastError w)
  show ?case
  proof (cases "retries \<le> maxRetriesOf node")
    case False
    then show ?thesis by (subst retryLoop.simps) simp
  next
    case True
    obtain r w1 where tb: "tryBody ag node pid w = (r, w1)" by force
    show ?thesis
    proof (cases r)
      case (Inr res)
      then show ?thesis
        using True tryBody_Inr_states [of ag node pid w res w1 s] tb "1.prems"
        by (subst retryLoop.simps) auto
    next
      case (Inl e)
      let ?w2 = "if Suc retries \<le> maxRetriesOf node
                 then sleep (backoffOf node * 2 ^ (Suc retries - 1)) w1 else w1"
      have ws: "workflowStates ?w2 = workflowStates w"
        using tryBody_Inl_states [of ag node pid w e w1] tb Inl by simp
      then have g: "getWorkflowState ?w2 pid = Some s"
        using "1.prems" by (simp add: getWorkflowState_def)
      have eq: "retryLoop ag node pid retries lastError w
                  = retryLoop ag node pid (Suc retries) (Some e) ?w2"
        using True by (subst retryLoop.simps) (simp add: tb Inl)
      from "1.IH" [OF True tb [unfolded Inl, symmetric] refl g] ws
      show ?thesis unfolding eq by (auto split: prod.splits sum.splits)
    qed
  qed
qed

text \<open>
  What \<^verbatim>\<open>executeNode\<close> leaves in the state row when it returns a result that does
  not require approval: the node completed, or the run failed.
\<close>

lemma executeNode_states:
  assumes ex: "executeNode ag node pid w = (Inr res, w')" and na: "\<not> res_requiresApproval res"
    and st: "getWorkflowState w pid = Some s"
  shows "getWorkflowState w' pid =
           Some (s\<lparr>currentNode := None, completedNodes := completedNodes s @ [node_id node]\<rparr>) \<or>
         getWorkflowState w' pid =
           Some (s\<lparr>currentNode := None, failedNodes := failedNodes s @ [node_id node],
                   status := Failed\<rparr>)"
proof -
  let ?w2 = "logEvent (NodeStarting (node_id node)) (setCurrentNode w pid (node_id node))"
  have g: "getWorkflowState ?w2 pid = Some (s\<lparr>currentNode := Some (node_id node)\<rparr>)"
    by (simp add: getWorkflowState_setCurrentNode st)
  obtain r w3 where rl: "retryLoop ag node pid 0 None ?w2 = (r, w3)" by force
  note t = retryLoop_states [OF g, where ag = ag and node = node and retries = 0 and lastError = None]
  show ?thesis
  proof (cases r)
    case (Inr res')
    then show ?thesis using t ex na by (auto simp add: rl executeNode_def Let_def)
  next
    case (Inl x)
    obtain retries le where x: "x = (retries, le)" by force
    from t have "workflowStates w3 = workflowStates ?w2" by (simp add: rl Inl)
    then have g3: "getWorkflowState w3 pid = Some (s\<lparr>currentNode := Some (node_id node)\<rparr>)"
      using g by (simp add: getWorkflowState_def)
    show ?thesis
      using ex
      by (auto simp add: rl Inl x executeNode_def Let_def markNodeFailed_def g3
            getWorkflowState_update applyUpdates_def noUpdates_def)
  qed
qed

lemma executeBatch_progress:
  assumes "executeBatch ag pid ns w = (Inr results, w')"
    and "\<not> list_ex res_requiresApproval results"
    and "getWorkflowState w pid = Some s"
  shows "\<exists>s'. getWorkflowState w' pid = Some s' \<and>
           (status s' = Failed \<or>
            status s' = status s \<and>
            set (completedNodes s') = set (completedNodes s) \<union> node_id ` set ns)"
  using assms
proof (induction ns arbitrary: w s results)
  case Nil
  then show ?case by simp
next
  case (Cons node rest)
  obtain r w1 where ex: "executeNode ag node pid w = (r, w1)" by force
  from Cons.prems(1) obtain res where r: "r = Inr res"
    by (cases r) (simp_all add: ex)
  from Cons.prems(1,2) have na: "\<not> res_requiresApproval res"
    by (auto simp add: ex r split: if_splits prod.splits sum.splits)
  from Cons.prems(1) na obtain results' where
    eb: "executeBatch ag pid rest w1 = (Inr results', w')" and rs: "results = res # results'"
    by (auto simp add: ex r split: prod.splits sum.splits)
  from Cons.prems(2) rs have na': "\<not> list_ex res_requiresApproval results'" by simp
  from executeNode_states [OF ex [unfolded r] na Cons.prems(3)]
  consider
    (completed) "getWorkflowState w1 pid =
           Some (s\<lparr>currentNode := None, completedNodes := completedNodes s @ [node_id node]\<rparr>)"
  | (fail) "getWorkflowState w1 pid =
           Some (s\<lparr>currentNode := None, failedNodes := failedNodes s @ [node_id node],
                   status := Failed\<rparr>)"
    by blast
  then show ?case
  proof cases
    case completed
    from Cons.IH [OF eb na' completed] show ?thesis by auto
  next
    case fail
    from Cons.IH [OF eb na' fail] show ?thesis by auto
  qed
qed

lemma executeBatch_remaining:
  assumes st: "getWorkflowState w pid = Some s" and run: "status s = Running"
    and ne: "getNextNodes workflow (completedNodes s) (failedNodes s) \<noteq> []"
    and eb: "executeBatch ag pid (getNextNodes workflow (completedNodes s) (failedNodes s)) w
               = (Inr results, w')"
    and na: "\<not> list_ex res_requiresApproval results"
  shows "remaining workflow pid w' < remaining workflow pid w"
proof -
  let ?next = "getNextNodes workflow (completedNodes s) (failedNodes s)"
  from executeBatch_progress [OF eb na st] obtain s' where
    g: "getWorkflowState w' pid = Some s'"
    and d: "status s' = Failed \<or>
            status s' = status s \<and>
            set (completedNodes s') = set (completedNodes s) \<union> node_id ` set ?next"
    by blast
  show ?thesis
  proof (cases "status s' = Failed")
    case True
    then show ?thesis by (simp add: remaining_def g st run)
  next
    case False
    with d have c: "set (completedNodes s') = set (completedNodes s) \<union> node_id ` set ?next"
      and r': "status s' = Running" using run by auto
    from ne obtain n where n: "n \<in> set ?next" by (cases ?next) auto
    then have n1: "n \<in> set (nodes workflow)" and n2: "node_id n \<notin> set (completedNodes s)"
      by (auto simp: getNextNodes_def split: if_splits)
    let ?P = "\<lambda>n. node_id n \<notin> set (completedNodes s)"
    let ?P' = "\<lambda>n. node_id n \<notin> set (completedNodes s')"
    have "filter ?P' (nodes workflow) = filter ?P' (filter ?P (nodes workflow))"
      using c by (auto intro: filter_cong)
    moreover have "length (filter ?P' (filter ?P (nodes workflow))) < length (filter ?P (nodes workflow))"
      by (rule length_filter_less [of n]) (use n n1 n2 c in auto)
    ultimately show ?thesis by (simp add: remaining_def g st run r')
  qed
qed

subsection \<open>The run loop\<close>

text \<open>
  \<^verbatim>\<open>executeNextNodes\<close>, the run loop. The argument \<open>workflow\<close> is the
  orchestrator's cached \<^verbatim>\<open>this.workflow\<close>; \<^verbatim>\<open>initialize\<close>, which reads and
  validates the workflow file when nothing is cached yet, is not part of the model.
\<close>

function executeNextNodes :: "Agents \<Rightarrow> Workflow \<Rightarrow> string \<Rightarrow> World \<Rightarrow> (error + RunResult) \<times> World" where
  "executeNextNodes ag workflow pid w =
     (case getWorkflowState w pid of
        None \<Rightarrow> (Inl StateNotFound, w)
      | Some state \<Rightarrow>
          if status state = Paused then (Inr (RunPaused (pendingDecisions state)), w)
          else if status state = Completed \<or> status state = Failed
          then (Inr (RunTerminal (status state) (completedNodes state) (failedNodes state)), w)
          else
            (let nextNodes = getNextNodes workflow (completedNodes state) (failedNodes state)
             in if length nextNodes = 0
                then (Inr (RunCompleted (completedNodes state)),
                      logEvent WorkflowCompleted (completeWorkflow w pid))
                else
                  (case executeBatch ag pid nextNodes w of
                     (Inl e, w1) \<Rightarrow> (Inl e, w1)
                   | (Inr results, w1) \<Rightarrow>
                       if list_ex res_requiresApproval results
                       then (Inr (RunPausedBatch results), w1)
                       else executeNextNodes ag workflow pid w1)))"
  by pat_completeness auto
termination
proof (relation "measure (\<lambda>(ag, workflow, pid, w). remaining workflow pid w)")
  show "wf (measure (\<lambda>(ag, workflow, pid, w). remaining workflow pid w))" by simp
next
  fix ag :: Agents and workflow pid w state nextNodes r results w1 x
  assume "getWorkflowState w pid = Some state"
    and "status state \<noteq> Paused"
    and "\<not> (status state = Completed \<or> status state = Failed)"
    and "nextNodes = getNextNodes workflow (completedNodes state) (failedNodes state)"
    and "length nextNodes \<noteq> 0"
    and "(r, w1) = executeBatch ag pid nextNodes w"
    and "r = Inr results"
    and "\<not> list_ex res_requiresApproval results"
  then show "((ag, workflow, pid, w1), ag, workflow, pid, w) \<in> measure (\<lambda>(ag, workflow, pid, w). remaining workflow pid w)"
    using executeBatch_remaining [of w pid state workflow ag results w1]
    by (cases "status state") auto
qed

declare executeNextNodes.simps [simp del]

text \<open>
  \<^verbatim>\<open>startWorkflow\<close>. \<open>sid\<close> is the id that \<^verbatim>\<open>nanoid()\<close> gives a new state row.
\<close>

definition startWorkflow ::
  "Agents \<Rightarrow> Workflow \<Rightarrow> string \<Rightarrow> string \<Rightarrow> World \<Rightarrow> (error + RunResult) \<times> World" where
  "startWorkflow ag workflow pid sid w =
     (let fresh = (\<lambda>w0. executeNextNodes ag workflow pid
                           (logEvent WorkflowStarted (createWorkflowState w0 pid sid)))
      in case getWorkflowState w pid of
           Some existingState \<Rightarrow>
             if status existingState = Running \<or> status existingState = Paused
             then executeNextNodes ag workflow pid w
             else fresh (deleteWorkflowState w pid)
         | None \<Rightarrow> fresh w)"

section \<open>Approving a decision\<close>

text \<open>\<^verbatim>\<open>executeTool\<close>: the call is recorded and the oracle gives its outcome.\<close>

definition executeTool :: "Tools \<Rightarrow> string \<Rightarrow> World \<Rightarrow> ToolOutcome \<times> World" where
  "executeTool tools action w =
     (tools action (length (toolCalls w)), w\<lparr>toolCalls := toolCalls w @ [action]\<rparr>)"

datatype StrategyResult = StrategySuccess | StrategyFailure error

text \<open>The update of the decision row: \<^verbatim>\<open>selectedOption\<close> and \<^verbatim>\<open>status: 'approved'\<close>.\<close>

definition markApproved :: "string \<Rightarrow> string \<Rightarrow> World \<Rightarrow> World" where
  "markApproved decisionId selected w =
     w\<lparr>decisions :=
         map (\<lambda>d. if dec_id d = decisionId
                  then d\<lparr>selectedOption := Some selected, dec_status := Approved\<rparr> else d)
             (decisions w)\<rparr>"

text \<open>
  The tail of \<^verbatim>\<open>processStrategyDecision\<close>: the approved strategy is stored in memory
  and the two artifacts are saved. The results of these three tool calls are not looked
  at; an exception of one of them ends the function.
\<close>

definition storeStrategy :: "Tools \<Rightarrow> string \<Rightarrow> string \<Rightarrow> World \<Rightarrow> StrategyResult \<times> World" where
  "storeStrategy tools decisionId selected w2 =
     (case executeTool tools ''memory.store'' w2 of
        (ToolThrows, w3) \<Rightarrow> (StrategyFailure ToolThrew, w3)
      | (ToolReturns b3, w3) \<Rightarrow>
          (case executeTool tools ''file_storage.save'' w3 of
             (ToolThrows, w4) \<Rightarrow> (StrategyFailure ToolThrew, w4)
           | (ToolReturns b4, w4) \<Rightarrow>
               (case executeTool tools ''file_storage.save'' w4 of
                  (ToolThrows, w5) \<Rightarrow> (StrategyFailure ToolThrew, w5)
                | (ToolReturns b5, w5) \<Rightarrow>
                    (StrategySuccess, logEvent (StrategyApproved decisionId selected) w5))))"

text \<open>
  \<^verbatim>\<open>processStrategyDecision\<close>. All of it runs inside one \<^verbatim>\<open>try\<close>, whose
  \<^verbatim>\<open>catch\<close> returns a result with \<^verbatim>\<open>success: false\<close>: the function never
  throws. A calendar result with \<^verbatim>\<open>success: true\<close> is taken to carry a well-formed
  artifact.
\<close>

definition processStrategyDecision ::
  "Tools \<Rightarrow> string \<Rightarrow> string \<Rightarrow> string \<Rightarrow> World \<Rightarrow> StrategyResult \<times> World" where
  "processStrategyDecision tools pid decisionId selected w =
     (case find (\<lambda>d. dec_id d = decisionId) (decisions w) of
        None \<Rightarrow> (StrategyFailure DecisionNotFound, w)
      | Some decision \<Rightarrow>
          (case dec_options decision of
             None \<Rightarrow> (StrategyFailure NoOptions, w)
           | Some opts \<Rightarrow>
               if selected \<notin> set opts then (StrategyFailure InvalidOption, w)
               else
                 (case executeTool tools ''artifact_generator.content_calendar''
                         (markApproved decisionId selected w) of
                    (ToolThrows, w2) \<Rightarrow> (StrategyFailure ToolThrew, w2)
                  | (ToolReturns calendarOk, w2) \<Rightarrow>
                      if \<not> calendarOk then (StrategyFailure CalendarFailed, w2)
                      else storeStrategy tools decisionId selected w2)))"

text \<open>
  \<^verbatim>\<open>approveDecision\<close>. \<^verbatim>\<open>if (state && state.currentNode)\<close> is false for a missing
  row, for \<^verbatim>\<open>null\<close> and for the empty string.
\<close>

definition approveDecision ::
  "Agents \<Rightarrow> Tools \<Rightarrow> Workflow \<Rightarrow> string \<Rightarrow> string \<Rightarrow> string \<Rightarrow> World
     \<Rightarrow> (error + RunResult) \<times> World" where
  "approveDecision ag tools workflow pid decisionId selected w =
     (case removePendingDecision w pid decisionId of
        Inl e \<Rightarrow> (Inl e, w)
      | Inr w1 \<Rightarrow>
          (case processStrategyDecision tools pid decisionId selected
                  (logEvent (DecisionApproved decisionId selected) w1) of
             (StrategyFailure e, w3) \<Rightarrow> (Inr (DecisionFailed e), w3)
           | (StrategySuccess, w3) \<Rightarrow>
               (case getWorkflowState w3 pid of
                  None \<Rightarrow> executeNextNodes ag workflow pid w3
                | Some state \<Rightarrow>
                    (case currentNode state of
                       None \<Rightarrow> executeNextNodes ag workflow pid w3
                     | Some nodeId \<Rightarrow>
                         if nodeId = [] then executeNextNodes ag workflow pid w3
                         else
                           (case markNodeComplete w3 pid nodeId of
                              Inl e \<Rightarrow> (Inl e, w3)
                            | Inr w4 \<Rightarrow> executeNextNodes ag workflow pid w4)))))"

section \<open>The specification's predicates\<close>

text \<open>The invariant of the specification, on one state row.\<close>

definition pausedIffPending :: "WorkflowState \<Rightarrow> bool" where
  "pausedIffPending s = (status s = Paused \<longleftrightarrow> pendingDecisions s \<noteq> [])"

text \<open>A delegate outcome that the executor treats as a failure.\<close>

definition failing :: "AgentOutcome \<Rightarrow> bool" where
  "failing out = (case out of Throws \<Rightarrow> True | Returns r \<Rightarrow> \<not> success r)"

definition completedOf :: "World \<Rightarrow> string \<Rightarrow> string list" where
  "completedOf w pid = (case getWorkflowState w pid of None \<Rightarrow> [] | Some s \<Rightarrow> completedNodes s)"

text \<open>
  \<open>steps pid w w'\<close>: from \<open>w\<close> to \<open>w'\<close> no state row was created or deleted (the
  rows have the same ids and projects, in the same order), the
  \<^verbatim>\<open>completedNodes\<close> of the project's run were only appended to, and the decisions
  table and the tool calls were left alone.
\<close>

definition steps :: "string \<Rightarrow> World \<Rightarrow> World \<Rightarrow> bool" where
  "steps pid w w' \<longleftrightarrow>
     map state_id (workflowStates w') = map state_id (workflowStates w) \<and>
     map projectId (workflowStates w') = map projectId (workflowStates w) \<and>
     decisions w' = decisions w \<and> toolCalls w' = toolCalls w \<and>
     prefix (completedOf w pid) (completedOf w' pid)"

text \<open>
  The timeline of a node that is attempted \<open>m + 1\<close> times from a base backoff of
  \<open>b\<close> milliseconds: the delegate is invoked, and for each retry \<open>k = 1, \<dots>, m\<close> the
  executor first sleeps on a timer set to \<open>b \<times> 2\<^bsup>k-1\<^esup>\<close> and then invokes the
  delegate again.
\<close>

definition retryTimeline :: "string \<Rightarrow> nat \<Rightarrow> nat \<Rightarrow> Action list" where
  "retryTimeline aid b m =
     Invoked aid #
       concat (map (\<lambda>k. [Slept (timerDelay (b * 2 ^ (k - 1))), Invoked aid]) [1 ..< Suc m])"

text \<open>
  The invariant of the execution state on its two lists: no node id is both completed
  and failed. With it goes what keeps it when a decision is approved: the node that
  \<^verbatim>\<open>currentNode\<close> names is not a failed one.
\<close>

definition consistentLists :: "WorkflowState \<Rightarrow> bool" where
  "consistentLists s \<longleftrightarrow>
     set (completedNodes s) \<inter> set (failedNodes s) = {} \<and>
     (\<forall>x. currentNode s = Some x \<longrightarrow> x \<notin> set (failedNodes s))"


definition dependsOn :: "Workflow \<Rightarrow> (string \<times> string) set" where
  "dependsOn workflow =
     {(node_id n, d) | n d. n \<in> set (nodes workflow) \<and> d \<in> set (dependencies n)}"

definition hasDependencyCycle :: "Workflow \<Rightarrow> bool" where
  "hasDependencyCycle workflow \<longleftrightarrow> (\<exists>x. (x, x) \<in> (dependsOn workflow)\<^sup>+)"

definition hasDanglingDependency :: "Workflow \<Rightarrow> bool" where
  "hasDanglingDependency workflow \<longleftrightarrow>
     (\<exists>n \<in> set (nodes workflow). \<exists>d \<in> set (dependencies n).
        d \<notin> node_id ` set (nodes workflow))"

text \<open>
  The dependencies that are looked up by node id: those of the first node declared with
  that id. They are all the dependencies when no two nodes share an id.
\<close>

definition firstDependsOn :: "Workflow \<Rightarrow> (string \<times> string) set" where
  "firstDependsOn workflow =
     {(x, d). \<exists>node. find (\<lambda>n. node_id n = x) (nodes workflow) = Some node \<and>
                d \<in> set (dependencies node)}"

text \<open>A node id that lies on a cycle of the relation \<open>E\<close>, or from which one is reached.\<close>

definition reachesCycle :: "(string \<times> string) set \<Rightarrow> string \<Rightarrow> bool" where
  "reachesCycle E x \<longleftrightarrow> (\<exists>c. (x, c) \<in> E\<^sup>* \<and> (c, c) \<in> E\<^sup>+)"

text \<open>
  The invariant of the traversal: the stack is visited; the nodes visited and no longer
  on the stack are closed under dependencies, and none of them lies on a cycle.
\<close>

definition dfsInv :: "Workflow \<Rightarrow> string set \<times> string set \<Rightarrow> bool" where
  "dfsInv workflow st \<longleftrightarrow>
     snd st \<subseteq> fst st \<and>
     (\<forall>a \<in> fst st - snd st. \<forall>b. (a, b) \<in> firstDependsOn workflow \<longrightarrow> b \<in> fst st - snd st) \<and>
     (\<forall>a \<in> fst st - snd st. (a, a) \<notin> (firstDependsOn workflow)\<^sup>+)"

definition dfsStep :: "Workflow \<Rightarrow> string set \<times> string set \<Rightarrow> string set \<times> string set \<Rightarrow> bool" where
  "dfsStep workflow st st' \<longleftrightarrow>
     dfsInv workflow st' \<and> snd st \<subseteq> snd st' \<and> fst st - snd st \<subseteq> fst st' - snd st'"

section \<open>Example runs\<close>

definition emptyWorld :: World where
  "emptyWorld =
     \<lparr>workflowStates = [], decisions = [], events = [], agentCalls = [], advisoryCalls = [],
       toolCalls = [], sleeps = [], timeline = []\<rparr>"

definition runningWorld :: World where
  "runningWorld =
     \<lparr>workflowStates =
        [\<lparr>state_id = ''s1'', projectId = ''p1'', currentNode = None,
          completedNodes = [], failedNodes = [], pendingDecisions = [],
          status = Running\<rparr>],
      decisions = [], events = [], agentCalls = [], advisoryCalls = [], toolCalls = [],
      sleeps = [], timeline = []\<rparr>"

text \<open>A run paused on the decision \<open>d1\<close> of its node \<open>strategy\<close>.\<close>

definition pausedWorld :: World where
  "pausedWorld =
     \<lparr>workflowStates =
        [\<lparr>state_id = ''s1'', projectId = ''p1'', currentNode = Some ''strategy'',
          completedNodes = [''brand''], failedNodes = [], pendingDecisions = [''d1''],
          status = Paused\<rparr>],
      decisions =
        [\<lparr>dec_id = ''d1'', dec_projectId = ''p1'',
          dec_options = Some [''safe'', ''balanced'', ''bold''], dec_status = Pending,
          selectedOption = None\<rparr>],
      events = [], agentCalls = [], advisoryCalls = [], toolCalls = [], sleeps = [], timeline = []\<rparr>"

definition completedWorld :: World where
  "completedWorld =
     \<lparr>workflowStates =
        [\<lparr>state_id = ''s1'', projectId = ''p1'', currentNode = None,
          completedNodes = [''brand'', ''strategy''], failedNodes = [], pendingDecisions = [],
          status = Completed\<rparr>],
      decisions =
        [\<lparr>dec_id = ''d1'', dec_projectId = ''p1'',
          dec_options = Some [''safe'', ''balanced'', ''bold''], dec_status = Approved,
          selectedOption = Some ''safe''\<rparr>],
      events = [], agentCalls = [], advisoryCalls = [], toolCalls = [], sleeps = [], timeline = []\<rparr>"

definition failingAgents :: Agents where
  "failingAgents = (\<lambda>aid. Some (\<lambda>k. Throws))"

definition noDecisionAgents :: Agents where
  "noDecisionAgents = (\<lambda>aid. Some (\<lambda>k. Returns \<lparr>success = True, data = Object None\<rparr>))"

definition okTools :: Tools where
  "okTools = (\<lambda>action k. ToolReturns True)"

definition noPolicyNode :: WorkflowNode where
  "noPolicyNode =
     \<lparr>node_id = ''A'', name = ''Node A'', agentId = ''agent_a'', dependencies = [],
       requiresApproval = False, retryPolicy = None, runQA = True, runCodeReview = True\<rparr>"

definition zeroBackoffNode :: WorkflowNode where
  "zeroBackoffNode =
     \<lparr>node_id = ''A'', name = ''Node A'', agentId = ''agent_a'', dependencies = [],
       requiresApproval = False,
       retryPolicy = Some \<lparr>maxRetries = Some 1, backoffMs = Some 0\<rparr>,
       runQA = True, runCodeReview = True\<rparr>"


definition approvalNode :: WorkflowNode where
  "approvalNode =
     \<lparr>node_id = ''strategy'', name = ''Strategy'', agentId = ''strategy_agent'',
       dependencies = [], requiresApproval = True,
       retryPolicy = Some \<lparr>maxRetries = Some 2, backoffMs = Some 1000\<rparr>,
       runQA = True, runCodeReview = True\<rparr>"

definition brandNode :: WorkflowNode where
  "brandNode =
     \<lparr>node_id = ''brand'', name = ''Brand'', agentId = ''brand_brain'',
       dependencies = [], requiresApproval = False,
       retryPolicy = Some \<lparr>maxRetries = Some 2, backoffMs = Some 1000\<rparr>,
       runQA = True, runCodeReview = True\<rparr>"

definition strategyNode :: WorkflowNode where
  "strategyNode =
     \<lparr>node_id = ''strategy'', name = ''Strategy'', agentId = ''strategy_agent'',
       dependencies = [''brand''], requiresApproval = True,
       retryPolicy = Some \<lparr>maxRetries = Some 2, backoffMs = Some 1000\<rparr>,
       runQA = True, runCodeReview = True\<rparr>"

definition strategyWorkflow :: Workflow where
  "strategyWorkflow = \<lparr>wf_name = ''brand_workflow'', nodes = [brandNode, strategyNode]\<rparr>"


definition nodeB :: WorkflowNode where
  "nodeB =
     \<lparr>node_id = ''B'', name = ''Node B'', agentId = ''agent_b'', dependencies = [''A''],
       requiresApproval = False, retryPolicy = None, runQA = True, runCodeReview = True\<rparr>"

definition nodeC :: WorkflowNode where
  "nodeC =
     \<lparr>node_id = ''C'', name = ''Node C'', agentId = ''agent_c'', dependencies = [''B''],
       requiresApproval = False, retryPolicy = None, runQA = True, runCodeReview = True\<rparr>"

definition chainWorkflow :: Workflow where
  "chainWorkflow = \<lparr>wf_name = ''chain'', nodes = [noPolicyNode, nodeB, nodeC]\<rparr>"









text \<open>\<open>A\<close> and \<open>B\<close> depend on each other; \<open>C\<close> depends on \<open>B\<close> and on a node that does not exist.\<close>

definition cyclicWorkflow :: Workflow where
  "cyclicWorkflow =
     \<lparr>wf_name = ''cyclic'',
      nodes =
        [noPolicyNode\<lparr>dependencies := [''B'']\<rparr>,
         nodeB,
         nodeC\<lparr>dependencies := [''B'', ''Z'']\<rparr>]\<rparr>"

text \<open>
  Two nodes share the id \<open>A\<close>: the delegate of the first succeeds, that of the second
  throws. \<open>B\<close> depends on \<open>A\<close>.
\<close>

definition okNode :: WorkflowNode where
  "okNode =
     \<lparr>node_id = ''A'', name = ''Node A, first'', agentId = ''agent_ok'', dependencies = [],
       requiresApproval = False, retryPolicy = None, runQA = True, runCodeReview = True\<rparr>"

definition sharedIdWorkflow :: Workflow where
  "sharedIdWorkflow = \<lparr>wf_name = ''shared_id'', nodes = [okNode, noPolicyNode, nodeB]\<rparr>"

definition mixedAgents :: Agents where
  "mixedAgents =
     (\<lambda>aid. if aid = ''agent_ok''
            then Some (\<lambda>k. Returns \<lparr>success = True, data = Falsy\<rparr>)
            else Some (\<lambda>k. Throws))"

definition sharedIdRun :: World where
  "sharedIdRun = snd (startWorkflow mixedAgents sharedIdWorkflow ''p1'' ''s1'' emptyWorld)"

text \<open>Two nodes with the id \<open>A\<close>; the second depends on \<open>A\<close>.\<close>

definition duplicateWorkflow :: Workflow where
  "duplicateWorkflow =
     \<lparr>wf_name = ''duplicate'',
      nodes = [noPolicyNode, noPolicyNode\<lparr>name := ''Node A again'', dependencies := [''A'']\<rparr>]\<rparr>"

section \<open>The pause invariant (C4)\<close>

text \<open>
  C4, as stated, fails: \<^verbatim>\<open>cancelWorkflow\<close> on a paused run sets the status to
  failed and keeps the pending decision, so the run is not paused while
  \<^verbatim>\<open>pendingDecisions\<close> is non-empty.
\<close>

theorem cancelWorkflow_breaks_paused_iff_pending:
  "map_option pausedIffPending (getWorkflowState pausedWorld ''p1'') = Some True \<and>
   map_option pausedIffPending (getWorkflowState (cancelWorkflow pausedWorld ''p1'') ''p1'')
     = Some False"
  by (simp add: getWorkflowState_update cancelWorkflow_def)
     (simp add: pausedWorld_def getWorkflowState_def pausedIffPending_def applyUpdates_def
        noUpdates_def)

text \<open>
  C4, amended: on a run that has a state row, \<^verbatim>\<open>addPendingDecision\<close> and
  \<^verbatim>\<open>removePendingDecision\<close> always leave a state in which the status is paused
  if and only if \<^verbatim>\<open>pendingDecisions\<close> is non-empty. \<^verbatim>\<open>markNodeFailed\<close>,
  \<^verbatim>\<open>completeWorkflow\<close> and \<^verbatim>\<open>cancelWorkflow\<close> set a status that is not
  paused and keep \<^verbatim>\<open>pendingDecisions\<close> as it was, so after them the equivalence
  holds exactly when \<^verbatim>\<open>pendingDecisions\<close> was empty.
\<close>

theorem paused_iff_pending_amended:
  assumes "getWorkflowState w pid = Some s"
  shows "(\<exists>w' s'. addPendingDecision w pid d = Inr w' \<and> getWorkflowState w' pid = Some s' \<and>
            pausedIffPending s') \<and>
         (\<exists>w' s'. removePendingDecision w pid d = Inr w' \<and> getWorkflowState w' pid = Some s' \<and>
            pausedIffPending s') \<and>
         (\<exists>w' s'. markNodeFailed w pid n = Inr w' \<and> getWorkflowState w' pid = Some s' \<and>
            status s' = Failed \<and> pendingDecisions s' = pendingDecisions s \<and>
            (pausedIffPending s' \<longleftrightarrow> pendingDecisions s = [])) \<and>
         (\<exists>s'. getWorkflowState (completeWorkflow w pid) pid = Some s' \<and>
            status s' = Completed \<and> pendingDecisions s' = pendingDecisions s \<and>
            (pausedIffPending s' \<longleftrightarrow> pendingDecisions s = [])) \<and>
         (\<exists>s'. getWorkflowState (cancelWorkflow w pid) pid = Some s' \<and>
            status s' = Failed \<and> pendingDecisions s' = pendingDecisions s \<and>
            (pausedIffPending s' \<longleftrightarrow> pendingDecisions s = []))"
  using assms
  by (simp add: addPendingDecision_def removePendingDecision_def markNodeFailed_def
      completeWorkflow_def cancelWorkflow_def getWorkflowState_update pausedIffPending_def
      applyUpdates_def noUpdates_def Let_def)

theorem paused_iff_pending_amended_witness:
  "(\<exists>w' s'. addPendingDecision pausedWorld ''p1'' ''d2'' = Inr w' \<and>
      getWorkflowState w' ''p1'' = Some s' \<and> pausedIffPending s') \<and>
   (\<exists>s'. getWorkflowState (cancelWorkflow pausedWorld ''p1'') ''p1'' = Some s' \<and>
      status s' = Failed \<and> pendingDecisions s' = [''d1''])"
proof -
  have h: "getWorkflowState pausedWorld ''p1'' = Some (hd (workflowStates pausedWorld))"
    by (simp add: pausedWorld_def getWorkflowState_def)
  have p: "pendingDecisions (hd (workflowStates pausedWorld)) = [''d1'']"
    by (simp add: pausedWorld_def)
  note t = paused_iff_pending_amended [OF h, of "''d2''" "''n''"]
  from t have a: "\<exists>w' s'. addPendingDecision pausedWorld ''p1'' ''d2'' = Inr w' \<and>
      getWorkflowState w' ''p1'' = Some s' \<and> pausedIffPending s'"
    by (rule conjunct1)
  from t have "\<exists>s'. getWorkflowState (cancelWorkflow pausedWorld ''p1'') ''p1'' = Some s' \<and>
      status s' = Failed \<and> pendingDecisions s' = pendingDecisions (hd (workflowStates pausedWorld))"
    by auto
  with a show ?thesis unfolding p by (rule conjI)
qed

section \<open>What every step of a run preserves\<close>

lemma steps_refl [simp]: "steps pid w w"
  by (simp add: steps_def)

lemma steps_trans: "steps pid w w1 \<Longrightarrow> steps pid w1 w2 \<Longrightarrow> steps pid w w2"
  by (auto simp: steps_def)

lemma steps_frame:
  "workflowStates w2 = workflowStates w1 \<Longrightarrow> decisions w2 = decisions w1 \<Longrightarrow>
   toolCalls w2 = toolCalls w1 \<Longrightarrow> steps pid w1 w2"
  by (simp add: steps_def completedOf_def getWorkflowState_def)

lemma steps_update:
  assumes "case u_completedNodes u of None \<Rightarrow> True | Some l \<Rightarrow> prefix (completedOf w pid) l"
  shows "steps pid w (updateWorkflowState w pid u)"
proof -
  have a: "map state_id (workflowStates (updateWorkflowState w pid u)) = map state_id (workflowStates w)"
    and b: "map projectId (workflowStates (updateWorkflowState w pid u)) = map projectId (workflowStates w)"
    by (simp_all add: updateWorkflowState_def)
  have c: "prefix (completedOf w pid) (completedOf (updateWorkflowState w pid u) pid)"
    using assms
    by (cases "getWorkflowState w pid")
       (auto simp: completedOf_def getWorkflowState_update applyUpdates_def split: option.splits)
  from a b c show ?thesis by (simp add: steps_def)
qed

lemma steps_state_ops:
  "steps pid w (setCurrentNode w pid n)"
  "steps pid w (completeWorkflow w pid)"
  "steps pid w (cancelWorkflow w pid)"
  "markNodeComplete w pid n = Inr w' \<Longrightarrow> steps pid w w'"
  "markNodeFailed w pid n = Inr w' \<Longrightarrow> steps pid w w'"
  "addPendingDecision w pid d = Inr w' \<Longrightarrow> steps pid w w'"
  "removePendingDecision w pid d = Inr w' \<Longrightarrow> steps pid w w'"
  by (auto simp: setCurrentNode_def completeWorkflow_def cancelWorkflow_def markNodeComplete_def
        markNodeFailed_def addPendingDecision_def removePendingDecision_def Let_def
        noUpdates_def completedOf_def
      split: option.splits intro!: steps_update)

lemma steps_exists:
  "steps pid w w' \<Longrightarrow> getWorkflowState w' pid = None \<longleftrightarrow> getWorkflowState w pid = None"
proof -
  assume "steps pid w w'"
  then have "map projectId (workflowStates w') = map projectId (workflowStates w)"
    by (simp add: steps_def)
  then have "set (map projectId (workflowStates w')) = set (map projectId (workflowStates w))"
    by simp
  then have "pid \<in> projectId ` set (workflowStates w') \<longleftrightarrow> pid \<in> projectId ` set (workflowStates w)"
    by simp
  then have "(\<exists>x\<in>set (workflowStates w'). pid = projectId x) \<longleftrightarrow>
             (\<exists>x\<in>set (workflowStates w). pid = projectId x)"
    unfolding image_iff .
  then show ?thesis
    unfolding getWorkflowState_def find_None_iff by metis
qed

lemma steps_tryBody: "steps pid w (snd (tryBody ag node pid w))"
proof -
  obtain r w1 where ra: "runAgent ag (agentId node) w = (r, w1)" by force
  have s1: "steps pid w w1"
    using runAgent_frame [of ag "agentId node" w] ra by (intro steps_frame) simp_all
  have s3: "steps pid w (runChecks node w1)"
    by (rule steps_trans [OF s1]) (simp add: steps_frame)
  show ?thesis
  proof (cases r)
    case (Inl e)
    then show ?thesis using s1 by (simp add: tryBody_def ra)
  next
    case (Inr out)
    show ?thesis
    proof (cases "approvalDecision node out")
      case (Inl e)
      then show ?thesis using s1 s3 by (simp add: tryBody_def ra Inr Let_def)
    next
      case ad: (Inr k)
      show ?thesis
      proof (cases k)
        case None
        show ?thesis
        proof (cases "markNodeComplete (runChecks node w1) pid (node_id node)")
          case (Inl e)
          then show ?thesis using s1 s3 by (simp add: tryBody_def ra Inr ad None Let_def)
        next
          case (Inr w4)
          have "steps pid w (logEvent (NodeCompleted (node_id node)) w4)"
            by (rule steps_trans [OF s3], rule steps_trans [OF steps_state_ops(4) [OF Inr]])
               (simp add: steps_frame)
          then show ?thesis using s1 by (simp add: tryBody_def ra \<open>r = Inr out\<close> ad None Let_def Inr)
        qed
      next
        case (Some d)
        show ?thesis
        proof (cases "addPendingDecision (runChecks node w1) pid d")
          case (Inl e)
          then show ?thesis using s1 s3 by (simp add: tryBody_def ra Inr ad Some Let_def)
        next
          case (Inr w4)
          have "steps pid w (logEvent (NodeAwaitingApproval (node_id node) d) w4)"
            by (rule steps_trans [OF s3], rule steps_trans [OF steps_state_ops(6) [OF Inr]])
               (simp add: steps_frame)
          then show ?thesis using s1 by (simp add: tryBody_def ra \<open>r = Inr out\<close> ad Some Let_def Inr)
        qed
      qed
    qed
  qed
qed

lemma steps_retryLoop: "steps pid w (snd (retryLoop ag node pid retries lastError w))"
proof (induction ag node pid retries lastError w rule: retryLoop.induct)
  case (1 ag node pid retries lastError w)
  show ?case
  proof (cases "retries \<le> maxRetriesOf node")
    case False
    then show ?thesis by (subst retryLoop.simps) simp
  next
    case True
    obtain r w1 where tb: "tryBody ag node pid w = (r, w1)" by force
    have s1: "steps pid w w1" using steps_tryBody [of pid w ag node] tb by simp
    show ?thesis
    proof (cases r)
      case (Inr res)
      then show ?thesis using True s1 by (subst retryLoop.simps) (simp add: tb)
    next
      case (Inl e)
      let ?w2 = "if Suc retries \<le> maxRetriesOf node
                 then sleep (backoffOf node * 2 ^ (Suc retries - 1)) w1 else w1"
      have s2: "steps pid w ?w2"
        by (rule steps_trans [OF s1]) (simp add: steps_frame)
      have eq: "retryLoop ag node pid retries lastError w
                  = retryLoop ag node pid (Suc retries) (Some e) ?w2"
        using True by (subst retryLoop.simps) (simp add: tb Inl)
      from "1.IH" [OF True tb [unfolded Inl, symmetric] refl]
      show ?thesis unfolding eq by (rule steps_trans [OF s2])
    qed
  qed
qed

lemma steps_executeNode:
  "steps pid w (snd (executeNode ag node pid w)) \<and>
   (getWorkflowState w pid \<noteq> None \<longrightarrow> (\<forall>e. fst (executeNode ag node pid w) \<noteq> Inl e))"
proof -
  let ?w2 = "logEvent (NodeStarting (node_id node)) (setCurrentNode w pid (node_id node))"
  obtain r w3 where rl: "retryLoop ag node pid 0 None ?w2 = (r, w3)" by force
  have s2: "steps pid w ?w2"
    by (rule steps_trans [OF steps_state_ops(1) [of pid w "node_id node"]]) (simp add: steps_frame)
  have s3: "steps pid w w3"
    using steps_retryLoop [of pid ?w2 ag node 0 None] rl by (auto intro: steps_trans [OF s2])
  show ?thesis
  proof (cases r)
    case (Inr res)
    then show ?thesis using s3 by (simp add: executeNode_def Let_def rl)
  next
    case (Inl x)
    obtain retries le where x: "x = (retries, le)" by force
    show ?thesis
    proof (cases "markNodeFailed w3 pid (node_id node)")
      case mf: (Inl e)
      then have "getWorkflowState w3 pid = None"
        by (auto simp: markNodeFailed_def split: option.splits)
      with steps_exists [OF s3] have "getWorkflowState w pid = None" by simp
      then show ?thesis using s3 by (simp add: executeNode_def Let_def rl Inl x mf)
    next
      case mf: (Inr w4)
      have "steps pid w (logEvent (NodeFailed (node_id node) retries) w4)"
        by (rule steps_trans [OF s3], rule steps_trans [OF steps_state_ops(5) [OF mf]])
           (simp add: steps_frame)
      then show ?thesis by (simp add: executeNode_def Let_def rl Inl x mf)
    qed
  qed
qed

lemma steps_executeBatch:
  "steps pid w (snd (executeBatch ag pid ns w)) \<and>
   (getWorkflowState w pid \<noteq> None \<longrightarrow> (\<forall>e. fst (executeBatch ag pid ns w) \<noteq> Inl e))"
proof (induction ns arbitrary: w)
  case Nil
  show ?case by simp
next
  case (Cons node rest)
  obtain r w1 where ex: "executeNode ag node pid w = (r, w1)" by force
  from steps_executeNode [of pid w ag node] ex
  have s1: "steps pid w w1" and t1: "getWorkflowState w pid \<noteq> None \<longrightarrow> (\<forall>e. r \<noteq> Inl e)"
    by simp_all
  obtain r2 w2 where eb: "executeBatch ag pid rest w1 = (r2, w2)" by force
  from Cons.IH [of w1] eb
  have s2: "steps pid w1 w2" and t2: "getWorkflowState w1 pid \<noteq> None \<longrightarrow> (\<forall>e. r2 \<noteq> Inl e)"
    by simp_all
  have s12: "steps pid w w2" by (rule steps_trans [OF s1 s2])
  have t2': "getWorkflowState w pid \<noteq> None \<longrightarrow> (\<forall>e. r2 \<noteq> Inl e)"
    using t2 steps_exists [OF s1] by simp
  show ?case
    using s1 s12 t1 t2'
    by (cases r; cases r2) (auto simp add: ex eb)
qed


section \<open>Retries (C10) and approval without a decision (C1)\<close>



lemma tryBody_failing:
  assumes "ag (agentId node) = Some run" and "failing (run (length (agentCalls w)))"
  shows "\<exists>e. tryBody ag node pid w =
           (Inl e, w\<lparr>agentCalls := agentCalls w @ [agentId node],
                     timeline := timeline w @ [Invoked (agentId node)]\<rparr>)"
  using assms
  by (auto simp: tryBody_def runAgent_def failing_def Let_def split: AgentOutcome.splits)

lemma retryLoop_always_failing:
  assumes ag: "ag (agentId node) = Some run" and fl: "\<forall>k. failing (run k)"
  shows "retries \<le> maxRetriesOf node \<Longrightarrow>
         \<exists>e. retryLoop ag node pid retries lastError w =
           (Inl (Suc (maxRetriesOf node), Some e),
            w\<lparr>agentCalls := agentCalls w @ replicate (Suc (maxRetriesOf node) - retries) (agentId node),
              sleeps := sleeps w @ map (\<lambda>k. timerDelay (backoffOf node * 2 ^ (k - 1)))
                                     [Suc retries ..< Suc (maxRetriesOf node)],
              timeline := timeline w @ Invoked (agentId node) #
                 concat (map (\<lambda>k. [Slept (timerDelay (backoffOf node * 2 ^ (k - 1))),
                                    Invoked (agentId node)])
                           [Suc retries ..< Suc (maxRetriesOf node)])\<rparr>)"
proof (induction "maxRetriesOf node - retries" arbitrary: retries lastError w)
  case 0
  then have eq: "retries = maxRetriesOf node" by simp
  have "\<exists>e. tryBody ag node pid w =
           (Inl e, w\<lparr>agentCalls := agentCalls w @ [agentId node],
                     timeline := timeline w @ [Invoked (agentId node)]\<rparr>)"
    by (rule tryBody_failing) (use ag fl in auto)
  then obtain e where
    tb: "tryBody ag node pid w =
           (Inl e, w\<lparr>agentCalls := agentCalls w @ [agentId node],
                     timeline := timeline w @ [Invoked (agentId node)]\<rparr>)"
    by blast
  show ?case
    apply (rule exI [of _ e])
    apply (subst retryLoop.simps)
    apply (simp add: tb eq)
    apply (subst retryLoop.simps)
    apply simp
    done
next
  case (Suc d)
  then have lt: "Suc retries \<le> maxRetriesOf node" and d: "d = maxRetriesOf node - Suc retries"
    by simp_all
  have "\<exists>e. tryBody ag node pid w =
           (Inl e, w\<lparr>agentCalls := agentCalls w @ [agentId node],
                     timeline := timeline w @ [Invoked (agentId node)]\<rparr>)"
    by (rule tryBody_failing) (use ag fl in auto)
  then obtain e where
    tb: "tryBody ag node pid w =
           (Inl e, w\<lparr>agentCalls := agentCalls w @ [agentId node],
                     timeline := timeline w @ [Invoked (agentId node)]\<rparr>)"
    by blast
  let ?w1 = "sleep (backoffOf node * 2 ^ (Suc retries - 1))
               (w\<lparr>agentCalls := agentCalls w @ [agentId node],
                  timeline := timeline w @ [Invoked (agentId node)]\<rparr>)"
  from Suc.hyps(1) [OF d lt, of "Some e" ?w1] obtain e' where
    ih: "retryLoop ag node pid (Suc retries) (Some e) ?w1 =
           (Inl (Suc (maxRetriesOf node), Some e'),
            ?w1\<lparr>agentCalls := agentCalls ?w1 @ replicate (Suc (maxRetriesOf node) - Suc retries) (agentId node),
              sleeps := sleeps ?w1 @ map (\<lambda>k. timerDelay (backoffOf node * 2 ^ (k - 1)))
                                     [Suc (Suc retries) ..< Suc (maxRetriesOf node)],
              timeline := timeline ?w1 @ Invoked (agentId node) #
                 concat (map (\<lambda>k. [Slept (timerDelay (backoffOf node * 2 ^ (k - 1))),
                                    Invoked (agentId node)])
                           [Suc (Suc retries) ..< Suc (maxRetriesOf node)])\<rparr>)"
    by blast
  have r: "Suc (maxRetriesOf node) - retries = Suc (maxRetriesOf node - retries)"
    using lt by simp
  have u: "[Suc retries ..< Suc (maxRetriesOf node)] = Suc retries # [Suc (Suc retries) ..< Suc (maxRetriesOf node)]"
    using lt by (simp add: upt_conv_Cons)
  show ?case
    apply (rule exI [of _ e'])
    apply (subst retryLoop.simps)
    using lt ih apply (simp add: tb r u sleep_def del: upt_Suc)
    done
qed

lemma executeNode_always_failing:
  assumes ag: "ag (agentId node) = Some run" and fl: "\<forall>k. failing (run k)"
    and st: "getWorkflowState w pid = Some s"
  shows "\<exists>e w'. executeNode ag node pid w =
           (Inr \<lparr>res_nodeId = node_id node, res_status = NodeFail, res_requiresApproval = False,
                 res_decisionId = None, res_error = Some e\<rparr>, w') \<and>
           timeline w' = timeline w @ retryTimeline (agentId node) (backoffOf node) (maxRetriesOf node) \<and>
           agentCalls w' = agentCalls w @ replicate (Suc (maxRetriesOf node)) (agentId node) \<and>
           sleeps w' = sleeps w @ map (\<lambda>k. timerDelay (backoffOf node * 2 ^ (k - 1)))
                                    [1 ..< Suc (maxRetriesOf node)] \<and>
           getWorkflowState w' pid =
             Some (s\<lparr>currentNode := None, failedNodes := failedNodes s @ [node_id node],
                     status := Failed\<rparr>) \<and>
           events w' = events w @ [NodeStarting (node_id node),
                                    NodeFailed (node_id node) (Suc (maxRetriesOf node))] \<and>
           decisions w' = decisions w \<and> toolCalls w' = toolCalls w"
proof -
  let ?w2 = "logEvent (NodeStarting (node_id node)) (setCurrentNode w pid (node_id node))"
  have "\<exists>e. retryLoop ag node pid 0 None ?w2 =
           (Inl (Suc (maxRetriesOf node), Some e),
            ?w2\<lparr>agentCalls := agentCalls ?w2 @ replicate (Suc (maxRetriesOf node) - 0) (agentId node),
              sleeps := sleeps ?w2 @ map (\<lambda>k. timerDelay (backoffOf node * 2 ^ (k - 1)))
                                     [Suc 0 ..< Suc (maxRetriesOf node)],
              timeline := timeline ?w2 @ Invoked (agentId node) #
                 concat (map (\<lambda>k. [Slept (timerDelay (backoffOf node * 2 ^ (k - 1))),
                                    Invoked (agentId node)])
                           [Suc 0 ..< Suc (maxRetriesOf node)])\<rparr>)"
    by (rule retryLoop_always_failing) (use ag fl in auto)
  then obtain e where rl: "retryLoop ag node pid 0 None ?w2 =
           (Inl (Suc (maxRetriesOf node), Some e),
            ?w2\<lparr>agentCalls := agentCalls ?w2 @ replicate (Suc (maxRetriesOf node) - 0) (agentId node),
              sleeps := sleeps ?w2 @ map (\<lambda>k. timerDelay (backoffOf node * 2 ^ (k - 1)))
                                     [Suc 0 ..< Suc (maxRetriesOf node)],
              timeline := timeline ?w2 @ Invoked (agentId node) #
                 concat (map (\<lambda>k. [Slept (timerDelay (backoffOf node * 2 ^ (k - 1))),
                                    Invoked (agentId node)])
                           [Suc 0 ..< Suc (maxRetriesOf node)])\<rparr>)"
    by blast
  have g: "getWorkflowState (setCurrentNode w pid (node_id node)) pid
             = Some (s\<lparr>currentNode := Some (node_id node)\<rparr>)"
    by (simp add: setCurrentNode_def getWorkflowState_update st applyUpdates_def noUpdates_def)
  show ?thesis
    apply (rule exI [of _ e])
    apply (simp add: executeNode_def Let_def rl markNodeFailed_def g retryTimeline_def
             del: upt_Suc replicate_Suc)
    apply (simp add: getWorkflowState_update st applyUpdates_def noUpdates_def setCurrentNode_def
             del: upt_Suc replicate_Suc)
    done
qed



lemma getWorkflowState_runningWorld:
  "getWorkflowState runningWorld ''p1'' = Some (hd (workflowStates runningWorld))"
  by (simp add: runningWorld_def getWorkflowState_def)













lemma executeNode_completes:
  assumes ag: "ag (agentId node) = Some run"
    and out: "run (length (agentCalls w)) = Returns out" and ok: "success out"
    and ad: "approvalDecision node out = Inr None"
    and st: "getWorkflowState w pid = Some s"
  shows "\<exists>w'. executeNode ag node pid w =
           (Inr \<lparr>res_nodeId = node_id node, res_status = NodeDone, res_requiresApproval = False,
                 res_decisionId = None, res_error = None\<rparr>, w') \<and>
           agentCalls w' = agentCalls w @ [agentId node] \<and>
           sleeps w' = sleeps w \<and>
           getWorkflowState w' pid =
             Some (s\<lparr>currentNode := None, completedNodes := completedNodes s @ [node_id node]\<rparr>) \<and>
           events w' = events w @ [NodeStarting (node_id node), NodeCompleted (node_id node)] \<and>
           decisions w' = decisions w \<and> toolCalls w' = toolCalls w"
proof -
  let ?w2 = "logEvent (NodeStarting (node_id node)) (setCurrentNode w pid (node_id node))"
  have g: "getWorkflowState (setCurrentNode w pid (node_id node)) pid
             = Some (s\<lparr>currentNode := Some (node_id node)\<rparr>)"
    by (simp add: setCurrentNode_def getWorkflowState_update st applyUpdates_def noUpdates_def)
  let ?w3 = "?w2\<lparr>agentCalls := agentCalls w @ [agentId node],
                  timeline := timeline w @ [Invoked (agentId node)]\<rparr>"
  have ra: "runAgent ag (agentId node) ?w2 = (Inr out, ?w3)"
    by (simp add: runAgent_def ag out Let_def)
  have tb: "tryBody ag node pid ?w2 =
      (Inr \<lparr>res_nodeId = node_id node, res_status = NodeDone, res_requiresApproval = False,
            res_decisionId = None, res_error = None\<rparr>,
       logEvent (NodeCompleted (node_id node))
         (updateWorkflowState (runChecks node ?w3) pid
            (noUpdates\<lparr>u_completedNodes := Some (completedNodes s @ [node_id node]),
                       u_currentNode := Some None\<rparr>)))"
    by (simp add: tryBody_def ra ok ad Let_def markNodeComplete_def g)
  show ?thesis
    apply (simp add: executeNode_def Let_def)
    apply (subst retryLoop.simps)
    apply (simp add: tb getWorkflowState_update g applyUpdates_def noUpdates_def)
    done
qed

text \<open>
  C1, as stated, fails: a node that requires approval and whose delegate succeeds with an
  object that has no \<^verbatim>\<open>decision_id\<close> is marked completed, not failed.
\<close>

theorem approval_without_decision_completes:
  "requiresApproval approvalNode \<and>
   fst (executeNode noDecisionAgents approvalNode ''p1'' runningWorld) =
     Inr \<lparr>res_nodeId = ''strategy'', res_status = NodeDone, res_requiresApproval = False,
           res_decisionId = None, res_error = None\<rparr> \<and>
   map_option completedNodes
     (getWorkflowState (snd (executeNode noDecisionAgents approvalNode ''p1'' runningWorld)) ''p1'')
     = Some [''strategy''] \<and>
   map_option failedNodes
     (getWorkflowState (snd (executeNode noDecisionAgents approvalNode ''p1'' runningWorld)) ''p1'')
     = Some []"
proof -
  note t = executeNode_completes [where ag = noDecisionAgents and node = approvalNode
      and run = "\<lambda>k. Returns \<lparr>success = True, data = Object None\<rparr>"
      and out = "\<lparr>success = True, data = Object None\<rparr>" and w = runningWorld
      and pid = "''p1''" and s = "hd (workflowStates runningWorld)"]
  have "\<exists>w'. executeNode noDecisionAgents approvalNode ''p1'' runningWorld =
           (Inr \<lparr>res_nodeId = node_id approvalNode, res_status = NodeDone,
                 res_requiresApproval = False, res_decisionId = None, res_error = None\<rparr>, w') \<and>
           getWorkflowState w' ''p1'' =
             Some ((hd (workflowStates runningWorld))\<lparr>currentNode := None,
               completedNodes := completedNodes (hd (workflowStates runningWorld)) @ [node_id approvalNode]\<rparr>)"
    using t
    by (simp add: noDecisionAgents_def approvalDecision_def approvalNode_def
          getWorkflowState_runningWorld)
       blast
  then show ?thesis
    by (auto simp add: approvalNode_def runningWorld_def)
qed

text \<open>
  C1, amended: for a node with \<^verbatim>\<open>requiresApproval = true\<close> whose (registered)
  delegate succeeds with an output that is falsy, or is an object without a
  \<^verbatim>\<open>decision_id\<close> key, on a run that has a state row, \<^verbatim>\<open>executeNode\<close> invokes
  the delegate once, does not sleep, appends the node to \<^verbatim>\<open>completedNodes\<close>,
  clears \<^verbatim>\<open>currentNode\<close>, leaves \<^verbatim>\<open>failedNodes\<close>, the status and
  \<^verbatim>\<open>pendingDecisions\<close> as they were, and returns the outcome completed with
  \<^verbatim>\<open>requiresApproval = false\<close>.
\<close>

theorem approval_without_decision_amended:
  assumes "requiresApproval node"
    and "ag (agentId node) = Some run"
    and "run (length (agentCalls w)) = Returns out" and "success out"
    and "data out = Falsy \<or> data out = Object None"
    and "getWorkflowState w pid = Some s"
  shows "\<exists>w'. executeNode ag node pid w =
           (Inr \<lparr>res_nodeId = node_id node, res_status = NodeDone, res_requiresApproval = False,
                 res_decisionId = None, res_error = None\<rparr>, w') \<and>
           agentCalls w' = agentCalls w @ [agentId node] \<and>
           sleeps w' = sleeps w \<and>
           getWorkflowState w' pid =
             Some (s\<lparr>currentNode := None, completedNodes := completedNodes s @ [node_id node]\<rparr>)"
proof -
  have ad: "approvalDecision node out = Inr None"
    using assms(1,5) by (auto simp: approvalDecision_def)
  have "\<exists>w'. executeNode ag node pid w =
           (Inr \<lparr>res_nodeId = node_id node, res_status = NodeDone, res_requiresApproval = False,
                 res_decisionId = None, res_error = None\<rparr>, w') \<and>
           agentCalls w' = agentCalls w @ [agentId node] \<and>
           sleeps w' = sleeps w \<and>
           getWorkflowState w' pid =
             Some (s\<lparr>currentNode := None, completedNodes := completedNodes s @ [node_id node]\<rparr>) \<and>
           events w' = events w @ [NodeStarting (node_id node), NodeCompleted (node_id node)] \<and>
           decisions w' = decisions w \<and> toolCalls w' = toolCalls w"
    by (rule executeNode_completes [where run = run and out = out]) (use assms ad in auto)
  then show ?thesis by blast
qed

theorem approval_without_decision_amended_witness:
  "\<exists>w'. executeNode noDecisionAgents approvalNode ''p1'' runningWorld =
           (Inr \<lparr>res_nodeId = ''strategy'', res_status = NodeDone, res_requiresApproval = False,
                 res_decisionId = None, res_error = None\<rparr>, w') \<and>
         agentCalls w' = [''strategy_agent''] \<and> sleeps w' = []"
proof -
  note t = approval_without_decision_amended [where ag = noDecisionAgents and node = approvalNode
      and run = "\<lambda>k. Returns \<lparr>success = True, data = Object None\<rparr>"
      and out = "\<lparr>success = True, data = Object None\<rparr>" and w = runningWorld
      and pid = "''p1''" and s = "hd (workflowStates runningWorld)"]
  have "\<exists>w'. executeNode noDecisionAgents approvalNode ''p1'' runningWorld =
           (Inr \<lparr>res_nodeId = node_id approvalNode, res_status = NodeDone,
                 res_requiresApproval = False, res_decisionId = None, res_error = None\<rparr>, w') \<and>
           agentCalls w' = agentCalls runningWorld @ [agentId approvalNode] \<and>
           sleeps w' = sleeps runningWorld"
    using t
    by (simp add: noDecisionAgents_def approvalNode_def getWorkflowState_runningWorld)
       blast
  then show ?thesis
    by (auto simp add: approvalNode_def runningWorld_def)
qed

section \<open>Start and stop (C8, C5)\<close>





text \<open>
  C5, as stated, fails: stopping a completed run changes its status to failed.
\<close>

theorem stop_changes_completed_run:
  "map_option status (getWorkflowState completedWorld ''p1'') = Some Completed \<and>
   map_option status (getWorkflowState (cancelWorkflow completedWorld ''p1'') ''p1'') = Some Failed"
  by (simp add: getWorkflowState_update cancelWorkflow_def)
     (simp add: completedWorld_def getWorkflowState_def applyUpdates_def noUpdates_def)

lemma applyUpdates_idem: "applyUpdates u (applyUpdates u r) = applyUpdates u r"
  by (simp add: applyUpdates_def split: option.splits)

lemma updateWorkflowState_idem:
  "updateWorkflowState (updateWorkflowState w pid u) pid u = updateWorkflowState w pid u"
  by (simp add: updateWorkflowState_def applyUpdates_idem)

lemma find_snoc_None:
  "find P xs = None \<Longrightarrow> find P (xs @ [y]) = (if P y then Some y else None)"
  by (induction xs) (auto split: if_splits)

lemma getWorkflowState_create:
  "getWorkflowState w pid = None \<Longrightarrow>
   getWorkflowState (createWorkflowState w pid sid) pid =
     Some \<lparr>state_id = sid, projectId = pid, currentNode = None, completedNodes = [],
           failedNodes = [], pendingDecisions = [], status = Running\<rparr>"
  by (simp add: getWorkflowState_def createWorkflowState_def find_snoc_None)

lemma getWorkflowState_delete: "getWorkflowState (deleteWorkflowState w pid) pid = None"
  by (simp add: getWorkflowState_def deleteWorkflowState_def find_None_iff)

text \<open>
  C5, amended: on a run whose status is completed or failed, the run loop returns the
  terminal snapshot and changes nothing; \<^verbatim>\<open>startWorkflow\<close> deletes the state row and
  runs the loop on a fresh one; stop (\<^verbatim>\<open>cancelWorkflow\<close>) is idempotent and leaves the
  status failed, so it keeps a failed run failed and turns a completed run
  into a failed one; and \<^verbatim>\<open>removePendingDecision\<close>, the first step of
  \<^verbatim>\<open>approveDecision\<close>, overwrites the terminal status with running or paused.
\<close>

theorem terminal_status_amended:
  assumes "getWorkflowState w pid = Some s" and "status s = Completed \<or> status s = Failed"
  shows "executeNextNodes ag workflow pid w =
           (Inr (RunTerminal (status s) (completedNodes s) (failedNodes s)), w) \<and>
         startWorkflow ag workflow pid sid w =
           executeNextNodes ag workflow pid
             (logEvent WorkflowStarted (createWorkflowState (deleteWorkflowState w pid) pid sid)) \<and>
         getWorkflowState (createWorkflowState (deleteWorkflowState w pid) pid sid) pid =
           Some \<lparr>state_id = sid, projectId = pid, currentNode = None, completedNodes = [],
                 failedNodes = [], pendingDecisions = [], status = Running\<rparr> \<and>
         map_option status (getWorkflowState (cancelWorkflow w pid) pid) = Some Failed \<and>
         cancelWorkflow (cancelWorkflow w pid) pid = cancelWorkflow w pid \<and>
         (\<exists>w1 s1. removePendingDecision w pid d = Inr w1 \<and> getWorkflowState w1 pid = Some s1 \<and>
            (status s1 = Running \<or> status s1 = Paused))"
proof (intro conjI)
  show "executeNextNodes ag workflow pid w =
           (Inr (RunTerminal (status s) (completedNodes s) (failedNodes s)), w)"
    using assms by (subst executeNextNodes.simps) auto
  show "startWorkflow ag workflow pid sid w =
           executeNextNodes ag workflow pid
             (logEvent WorkflowStarted (createWorkflowState (deleteWorkflowState w pid) pid sid))"
    using assms by (auto simp: startWorkflow_def Let_def)
  show "getWorkflowState (createWorkflowState (deleteWorkflowState w pid) pid sid) pid =
           Some \<lparr>state_id = sid, projectId = pid, currentNode = None, completedNodes = [],
                 failedNodes = [], pendingDecisions = [], status = Running\<rparr>"
    by (rule getWorkflowState_create) (rule getWorkflowState_delete)
  show "map_option status (getWorkflowState (cancelWorkflow w pid) pid) = Some Failed"
    using assms(1)
    by (simp add: cancelWorkflow_def getWorkflowState_update applyUpdates_def noUpdates_def)
  show "cancelWorkflow (cancelWorkflow w pid) pid = cancelWorkflow w pid"
    by (simp add: cancelWorkflow_def updateWorkflowState_idem)
  show "\<exists>w1 s1. removePendingDecision w pid d = Inr w1 \<and> getWorkflowState w1 pid = Some s1 \<and>
            (status s1 = Running \<or> status s1 = Paused)"
    using assms(1)
    by (simp add: removePendingDecision_def Let_def getWorkflowState_update applyUpdates_def
          noUpdates_def)
qed

theorem terminal_status_amended_witness:
  "executeNextNodes failingAgents \<lparr>wf_name = ''brand'', nodes = [zeroBackoffNode]\<rparr> ''p1''
      completedWorld
     = (Inr (RunTerminal Completed [''brand'', ''strategy''] []), completedWorld) \<and>
   cancelWorkflow (cancelWorkflow completedWorld ''p1'') ''p1'' = cancelWorkflow completedWorld ''p1''"
proof -
  have h: "getWorkflowState completedWorld ''p1'' = Some (hd (workflowStates completedWorld))"
    by (simp add: completedWorld_def getWorkflowState_def)
  have c: "status (hd (workflowStates completedWorld)) = Completed"
    "completedNodes (hd (workflowStates completedWorld)) = [''brand'', ''strategy'']"
    "failedNodes (hd (workflowStates completedWorld)) = []"
    by (simp_all add: completedWorld_def)
  from c have c': "status (hd (workflowStates completedWorld)) = Completed \<or>
      status (hd (workflowStates completedWorld)) = Failed" by simp
  note t = terminal_status_amended [OF h c', of failingAgents
      "\<lparr>wf_name = ''brand'', nodes = [zeroBackoffNode]\<rparr>" "''s2''" "''d1''"]
  from t have "executeNextNodes failingAgents \<lparr>wf_name = ''brand'', nodes = [zeroBackoffNode]\<rparr> ''p1''
      completedWorld
     = (Inr (RunTerminal (status (hd (workflowStates completedWorld)))
          (completedNodes (hd (workflowStates completedWorld)))
          (failedNodes (hd (workflowStates completedWorld)))), completedWorld)"
    by (rule conjunct1)
  moreover from t have "cancelWorkflow (cancelWorkflow completedWorld ''p1'') ''p1''
      = cancelWorkflow completedWorld ''p1''"
    by blast
  ultimately show ?thesis by (simp only: c)
qed

section \<open>Approving a decision (C3, C2)\<close>

lemma executeTool_frame [simp]:
  "workflowStates (snd (executeTool tools a w)) = workflowStates w"
  "decisions (snd (executeTool tools a w)) = decisions w"
  "events (snd (executeTool tools a w)) = events w"
  "agentCalls (snd (executeTool tools a w)) = agentCalls w"
  "toolCalls (snd (executeTool tools a w)) = toolCalls w @ [a]"
  by (simp_all add: executeTool_def)

lemma markApproved_frame [simp]:
  "workflowStates (markApproved d sel w) = workflowStates w"
  "events (markApproved d sel w) = events w"
  "agentCalls (markApproved d sel w) = agentCalls w"
  "toolCalls (markApproved d sel w) = toolCalls w"
  "getWorkflowState (markApproved d sel w) pid = getWorkflowState w pid"
  by (simp_all add: markApproved_def getWorkflowState_def)

lemma approveDecision_invalid_option:
  assumes st: "getWorkflowState w pid = Some s"
    and fd: "find (\<lambda>d. dec_id d = decisionId) (decisions w) = Some d"
    and op: "dec_options d = Some opts" and nv: "selected \<notin> set opts"
  shows "\<exists>w'. approveDecision ag tools workflow pid decisionId selected w
                 = (Inr (DecisionFailed InvalidOption), w') \<and>
          decisions w' = decisions w \<and> agentCalls w' = agentCalls w \<and>
          toolCalls w' = toolCalls w \<and>
          getWorkflowState w' pid =
            Some (s\<lparr>pendingDecisions := filter (\<lambda>i. i \<noteq> decisionId) (pendingDecisions s),
                    status := (if filter (\<lambda>i. i \<noteq> decisionId) (pendingDecisions s) \<noteq> []
                               then Paused else Running)\<rparr>)"
  using assms
  by (simp add: approveDecision_def removePendingDecision_def Let_def processStrategyDecision_def
        getWorkflowState_update applyUpdates_def noUpdates_def)

lemma pausedWorld_facts:
  "getWorkflowState pausedWorld ''p1'' = Some (hd (workflowStates pausedWorld))"
  "find (\<lambda>d. dec_id d = ''d1'') (decisions pausedWorld) = Some (hd (decisions pausedWorld))"
  "dec_options (hd (decisions pausedWorld)) = Some [''safe'', ''balanced'', ''bold'']"
  "pendingDecisions (hd (workflowStates pausedWorld)) = [''d1'']"
  "status (hd (workflowStates pausedWorld)) = Paused"
  by (simp_all add: pausedWorld_def getWorkflowState_def)

text \<open>
  C3, as stated, fails: approving the pending decision \<open>d1\<close> with an option it does not
  have returns the failure, and leaves the run running with no pending decision.
\<close>

theorem invalid_option_changes_state:
  "fst (approveDecision failingAgents okTools strategyWorkflow ''p1'' ''d1'' ''bogus'' pausedWorld)
     = Inr (DecisionFailed InvalidOption) \<and>
   map_option status (getWorkflowState pausedWorld ''p1'') = Some Paused \<and>
   map_option pendingDecisions (getWorkflowState pausedWorld ''p1'') = Some [''d1''] \<and>
   map_option status (getWorkflowState
       (snd (approveDecision failingAgents okTools strategyWorkflow ''p1'' ''d1'' ''bogus'' pausedWorld))
       ''p1'') = Some Running \<and>
   map_option pendingDecisions (getWorkflowState
       (snd (approveDecision failingAgents okTools strategyWorkflow ''p1'' ''d1'' ''bogus'' pausedWorld))
       ''p1'') = Some []"
proof -
  have "''bogus'' \<notin> set [''safe'', ''balanced'', ''bold'']" by simp
  from approveDecision_invalid_option [OF pausedWorld_facts(1,2,3) this,
      of failingAgents okTools strategyWorkflow]
  show ?thesis by (auto simp add: pausedWorld_facts)
qed

text \<open>
  C3, amended: when \<^verbatim>\<open>selectedOption\<close> does not name one of the options of the
  decision (a decision row that exists, on a run that has a state row),
  \<^verbatim>\<open>approveDecision\<close> returns the failure of \<^verbatim>\<open>processStrategyDecision\<close>
  (\<^verbatim>\<open>Invalid option selected\<close>), and leaves the decision row, the agents and the tools
  untouched; but the decision id has by then been removed from
  \<^verbatim>\<open>pendingDecisions\<close>, and the status set to paused if other decisions are pending
  and to running otherwise. The rest of the state row is unchanged.
\<close>

theorem invalid_option_amended:
  assumes "getWorkflowState w pid = Some s"
    and "find (\<lambda>d. dec_id d = decisionId) (decisions w) = Some d"
    and "dec_options d = Some opts" and "selected \<notin> set opts"
  shows "\<exists>w'. approveDecision ag tools workflow pid decisionId selected w
                 = (Inr (DecisionFailed InvalidOption), w') \<and>
          decisions w' = decisions w \<and> agentCalls w' = agentCalls w \<and>
          toolCalls w' = toolCalls w \<and>
          getWorkflowState w' pid =
            Some (s\<lparr>pendingDecisions := filter (\<lambda>i. i \<noteq> decisionId) (pendingDecisions s),
                    status := (if filter (\<lambda>i. i \<noteq> decisionId) (pendingDecisions s) \<noteq> []
                               then Paused else Running)\<rparr>)"
  using assms by (rule approveDecision_invalid_option)

theorem invalid_option_amended_witness:
  "\<exists>w'. approveDecision failingAgents okTools strategyWorkflow ''p1'' ''d1'' ''bogus'' pausedWorld
                 = (Inr (DecisionFailed InvalidOption), w') \<and>
          decisions w' = decisions pausedWorld \<and> toolCalls w' = toolCalls pausedWorld"
proof -
  have "''bogus'' \<notin> set [''safe'', ''balanced'', ''bold'']" by simp
  from invalid_option_amended [OF pausedWorld_facts(1,2,3) this,
      of failingAgents okTools strategyWorkflow]
  show ?thesis by blast
qed











section \<open>The retry law (C6)\<close>










section \<open>Failed dependencies (C9)\<close>

lemma getNextNodes_dependencies:
  assumes "n \<in> set (getNextNodes g completed failed)" and "d \<in> set (dependencies n)"
  shows "d \<in> set completed"
  using assms
  by (auto simp: getNextNodes_def areDependenciesSatisfied_def list_all_iff split: if_splits)

lemma stuck_branch:
  assumes ns: "nodes workflow = [a, b, c]"
    and ids: "node_id a = ''A''" "node_id b = ''B''" "node_id c = ''C''"
    and deps: "dependencies a = []" "dependencies b = [''A'']" "dependencies c = [''B'']"
    and ag: "ag (agentId a) = Some run" and fl: "\<forall>k. failing (run k)"
    and st: "getWorkflowState w pid = None"
  shows "\<exists>w'. startWorkflow ag workflow pid sid w = (Inr (RunTerminal Failed [] [''A'']), w') \<and>
          getWorkflowState w' pid =
            Some \<lparr>state_id = sid, projectId = pid, currentNode = None, completedNodes = [],
                  failedNodes = [''A''], pendingDecisions = [], status = Failed\<rparr> \<and>
          events w' = events w @ [WorkflowStarted, NodeStarting ''A'',
                                   NodeFailed ''A'' (Suc (maxRetriesOf a))] \<and>
          agentCalls w' = agentCalls w @ replicate (Suc (maxRetriesOf a)) (agentId a)"
proof -
  let ?fresh = "\<lparr>state_id = sid, projectId = pid, currentNode = None, completedNodes = [],
                  failedNodes = [], pendingDecisions = [], status = Running\<rparr>"
  define w0 where "w0 = logEvent WorkflowStarted (createWorkflowState w pid sid)"
  have g0: "getWorkflowState w0 pid = Some ?fresh"
    by (simp add: w0_def getWorkflowState_create [OF st])
  have f0: "events w0 = events w @ [WorkflowStarted]" "agentCalls w0 = agentCalls w"
    by (simp_all add: w0_def createWorkflowState_def)
  have sw: "startWorkflow ag workflow pid sid w = executeNextNodes ag workflow pid w0"
    by (simp add: startWorkflow_def st w0_def)
  have nx: "getNextNodes workflow [] [] = [a]"
    by (simp add: getNextNodes_def ns ids deps areDependenciesSatisfied_def)
  have "\<exists>e w'. executeNode ag a pid w0 =
           (Inr \<lparr>res_nodeId = node_id a, res_status = NodeFail, res_requiresApproval = False,
                 res_decisionId = None, res_error = Some e\<rparr>, w') \<and>
           timeline w' = timeline w0 @ retryTimeline (agentId a) (backoffOf a) (maxRetriesOf a) \<and>
           agentCalls w' = agentCalls w0 @ replicate (Suc (maxRetriesOf a)) (agentId a) \<and>
           sleeps w' = sleeps w0 @ map (\<lambda>k. timerDelay (backoffOf a * 2 ^ (k - 1)))
                                    [1 ..< Suc (maxRetriesOf a)] \<and>
           getWorkflowState w' pid =
             Some (?fresh\<lparr>currentNode := None, failedNodes := failedNodes ?fresh @ [node_id a],
                     status := Failed\<rparr>) \<and>
           events w' = events w0 @ [NodeStarting (node_id a),
                                    NodeFailed (node_id a) (Suc (maxRetriesOf a))] \<and>
           decisions w' = decisions w0 \<and> toolCalls w' = toolCalls w0"
    by (rule executeNode_always_failing [where run = run]) (use ag fl g0 in auto)
  then obtain e w1 where
    ex: "executeNode ag a pid w0 =
           (Inr \<lparr>res_nodeId = node_id a, res_status = NodeFail, res_requiresApproval = False,
                 res_decisionId = None, res_error = Some e\<rparr>, w1)"
    and a1: "agentCalls w1 = agentCalls w0 @ replicate (Suc (maxRetriesOf a)) (agentId a)"
    and g1: "getWorkflowState w1 pid =
             Some (?fresh\<lparr>currentNode := None, failedNodes := failedNodes ?fresh @ [node_id a],
                     status := Failed\<rparr>)"
    and e1: "events w1 = events w0 @ [NodeStarting (node_id a),
                                    NodeFailed (node_id a) (Suc (maxRetriesOf a))]"
    by blast
  have s0: "executeNextNodes ag workflow pid w0 = executeNextNodes ag workflow pid w1"
    by (subst executeNextNodes.simps) (simp add: g0 nx ex)
  have s1: "executeNextNodes ag workflow pid w1 = (Inr (RunTerminal Failed [] [''A'']), w1)"
    by (subst executeNextNodes.simps) (simp add: g1 ids)
  show ?thesis
    unfolding sw s0 s1 using g1 a1 e1 by (simp add: ids f0 del: replicate_Suc)
qed

subsection \<open>The two lists stay disjoint when node ids are distinct\<close>

lemma tryBody_Inr_approval:
  assumes "tryBody ag node pid w = (Inr res, w')" and "res_requiresApproval res"
    and "getWorkflowState w pid = Some s"
  shows "\<exists>d. getWorkflowState w' pid =
           Some (s\<lparr>pendingDecisions := pendingDecisions s @ [d], status := Paused\<rparr>)"
proof -
  obtain r w1 where ra: "runAgent ag (agentId node) w = (r, w1)" by force
  have g: "getWorkflowState w1 pid = Some s"
    using runAgent_frame(2) [of ag "agentId node" w] ra assms(3)
    by (simp add: getWorkflowState_def)
  show ?thesis
    using assms(1,2) g
    by (auto simp: tryBody_def ra Let_def addPendingDecision_def markNodeComplete_def
          getWorkflowState_update applyUpdates_def noUpdates_def
        split: sum.splits if_splits option.splits)
qed

lemma retryLoop_approval:
  "retryLoop ag node pid retries lastError w = (Inr res, w') \<Longrightarrow> res_requiresApproval res \<Longrightarrow>
   getWorkflowState w pid = Some s \<Longrightarrow>
   \<exists>d. getWorkflowState w' pid =
          Some (s\<lparr>pendingDecisions := pendingDecisions s @ [d], status := Paused\<rparr>)"
proof (induction ag node pid retries lastError w rule: retryLoop.induct)
  case (1 ag node pid retries lastError w)
  note rl = "1.prems"(1) and ra = "1.prems"(2) and st = "1.prems"(3)
  show ?case
  proof (cases "retries \<le> maxRetriesOf node")
    case False
    with rl show ?thesis by (subst (asm) retryLoop.simps) simp
  next
    case True
    obtain r w1 where tb: "tryBody ag node pid w = (r, w1)" by force
    show ?thesis
    proof (cases r)
      case (Inr res')
      with rl True tb have "res' = res" "w1 = w'" by (subst (asm) retryLoop.simps, simp)+
      with tryBody_Inr_approval [OF tb [unfolded Inr] _ st] ra show ?thesis by simp
    next
      case (Inl e)
      let ?w2 = "if Suc retries \<le> maxRetriesOf node
                 then sleep (backoffOf node * 2 ^ (Suc retries - 1)) w1 else w1"
      have ws: "workflowStates ?w2 = workflowStates w"
        using tryBody_Inl_states [of ag node pid w e w1] tb Inl by simp
      then have g: "getWorkflowState ?w2 pid = Some s"
        using st by (simp add: getWorkflowState_def)
      have eq: "retryLoop ag node pid retries lastError w
                  = retryLoop ag node pid (Suc retries) (Some e) ?w2"
        using True by (subst retryLoop.simps) (simp add: tb Inl)
      from "1.IH" [OF True tb [unfolded Inl, symmetric] refl rl [unfolded eq] ra g]
      show ?thesis .
    qed
  qed
qed

text \<open>
  What \<^verbatim>\<open>executeNode\<close> leaves in the state row: the node completed, the node
  failed, or the run paused on a decision of the node.
\<close>

lemma executeNode_cases:
  assumes ex: "executeNode ag node pid w = (Inr res, w')"
    and st: "getWorkflowState w pid = Some s"
  shows "getWorkflowState w' pid =
           Some (s\<lparr>currentNode := None, completedNodes := completedNodes s @ [node_id node]\<rparr>) \<or>
         getWorkflowState w' pid =
           Some (s\<lparr>currentNode := None, failedNodes := failedNodes s @ [node_id node],
                   status := Failed\<rparr>) \<or>
         (\<exists>d. getWorkflowState w' pid =
           Some (s\<lparr>currentNode := Some (node_id node),
                   pendingDecisions := pendingDecisions s @ [d], status := Paused\<rparr>))"
proof (cases "res_requiresApproval res")
  case False
  from executeNode_states [OF ex False st] show ?thesis by blast
next
  case True
  let ?w2 = "logEvent (NodeStarting (node_id node)) (setCurrentNode w pid (node_id node))"
  have g: "getWorkflowState ?w2 pid = Some (s\<lparr>currentNode := Some (node_id node)\<rparr>)"
    by (simp add: getWorkflowState_setCurrentNode st)
  obtain r w3 where rl: "retryLoop ag node pid 0 None ?w2 = (r, w3)" by force
  show ?thesis
  proof (cases r)
    case (Inr res')
    with ex rl have e: "res' = res" "w3 = w'" by (simp_all add: executeNode_def Let_def)
    from retryLoop_approval [OF rl [unfolded Inr e] True g] show ?thesis by auto
  next
    case (Inl x)
    obtain retries le where x: "x = (retries, le)" by force
    have False
      using ex True
      by (cases "markNodeFailed w3 pid (node_id node)")
         (auto simp add: executeNode_def Let_def rl Inl x)
    then show ?thesis ..
  qed
qed

lemma executeNode_consistent:
  assumes ex: "executeNode ag node pid w = (Inr res, w')"
    and st: "getWorkflowState w pid = Some s" and c: "consistentLists s"
    and n: "node_id node \<notin> set (completedNodes s) \<union> set (failedNodes s)"
  shows "\<exists>s'. getWorkflowState w' pid = Some s' \<and> consistentLists s' \<and>
           set (completedNodes s') \<union> set (failedNodes s')
             \<subseteq> insert (node_id node) (set (completedNodes s) \<union> set (failedNodes s))"
  using executeNode_cases [OF ex st] c n
  by (auto simp: consistentLists_def)

lemma executeBatch_consistent:
  assumes "distinct (map node_id ns)"
    and "\<forall>n\<in>set ns. node_id n \<notin> set (completedNodes s) \<union> set (failedNodes s)"
    and "getWorkflowState w pid = Some s" and "consistentLists s"
  shows "\<exists>s'. getWorkflowState (snd (executeBatch ag pid ns w)) pid = Some s' \<and> consistentLists s'"
  using assms
proof (induction ns arbitrary: w s)
  case Nil
  then show ?case by simp
next
  case (Cons node rest)
  obtain r w1 where ex: "executeNode ag node pid w = (r, w1)" by force
  from steps_executeNode [of pid w ag node] ex Cons.prems(3)
  obtain res where r: "r = Inr res" by (cases r) auto
  from Cons.prems(2) have n: "node_id node \<notin> set (completedNodes s) \<union> set (failedNodes s)"
    by simp
  from executeNode_consistent [OF ex [unfolded r] Cons.prems(3,4) n] obtain s1 where
    g1: "getWorkflowState w1 pid = Some s1" and c1: "consistentLists s1"
    and sub: "set (completedNodes s1) \<union> set (failedNodes s1)
             \<subseteq> insert (node_id node) (set (completedNodes s) \<union> set (failedNodes s))"
    by blast
  show ?case
  proof (cases "res_requiresApproval res")
    case True
    then show ?thesis using g1 c1 by (simp add: ex r)
  next
    case False
    from Cons.prems(1) have d: "distinct (map node_id rest)"
      and ne: "\<forall>n\<in>set rest. node_id n \<noteq> node_id node" by (auto simp: image_iff)
    from Cons.prems(2) ne sub
    have fr: "\<forall>n\<in>set rest. node_id n \<notin> set (completedNodes s1) \<union> set (failedNodes s1)"
      by auto
    from Cons.IH [OF d fr g1 c1] obtain s' where
      "getWorkflowState (snd (executeBatch ag pid rest w1)) pid = Some s'" "consistentLists s'"
      by blast
    then show ?thesis
      using False by (auto simp add: ex r split: prod.splits sum.splits)
  qed
qed

lemma getNextNodes_fresh:
  "\<forall>n\<in>set (getNextNodes workflow completed failed). node_id n \<notin> set completed \<union> set failed"
  by (auto simp: getNextNodes_def split: if_splits)

lemma getNextNodes_distinct:
  "distinct (map node_id (nodes workflow)) \<Longrightarrow>
   distinct (map node_id (getNextNodes workflow completed failed))"
  unfolding getNextNodes_def by (rule distinct_map_filter)

lemma executeNextNodes_consistent:
  "distinct (map node_id (nodes workflow)) \<Longrightarrow> getWorkflowState w pid = Some s \<Longrightarrow>
   consistentLists s \<Longrightarrow>
   \<exists>s'. getWorkflowState (snd (executeNextNodes ag workflow pid w)) pid = Some s' \<and>
        consistentLists s'"
proof (induction ag workflow pid w arbitrary: s rule: executeNextNodes.induct)
  case (1 ag workflow pid w)
  note d = "1.prems"(1) and st = "1.prems"(2) and c = "1.prems"(3)
  let ?next = "getNextNodes workflow (completedNodes s) (failedNodes s)"
  show ?case
  proof (cases "status s = Running")
    case False
    then have "executeNextNodes ag workflow pid w
        = (if status s = Paused then Inr (RunPaused (pendingDecisions s))
           else Inr (RunTerminal (status s) (completedNodes s) (failedNodes s)), w)"
      by (subst executeNextNodes.simps) (cases "status s"; simp add: st)
    then show ?thesis using st c by simp
  next
    case run: True
    show ?thesis
    proof (cases "?next = []")
      case True
      have "executeNextNodes ag workflow pid w
          = (Inr (RunCompleted (completedNodes s)),
             logEvent WorkflowCompleted (completeWorkflow w pid))"
        using run True by (subst executeNextNodes.simps) (simp add: st)
      then show ?thesis
        using st c
        by (simp add: completeWorkflow_def getWorkflowState_update applyUpdates_def noUpdates_def
              consistentLists_def)
    next
      case ne: False
      obtain r w1 where eb: "executeBatch ag pid ?next w = (r, w1)" by force
      from steps_executeBatch [of pid w ag ?next] eb st
      obtain results where r: "r = Inr results" by (cases r) auto
      from executeBatch_consistent [OF getNextNodes_distinct [OF d] getNextNodes_fresh st c,
          of ag] eb
      obtain s1 where g1: "getWorkflowState w1 pid = Some s1" and c1: "consistentLists s1"
        by auto
      show ?thesis
      proof (cases "list_ex res_requiresApproval results")
        case True
        have "executeNextNodes ag workflow pid w = (Inr (RunPausedBatch results), w1)"
          using run ne True by (subst executeNextNodes.simps) (simp add: st Let_def eb r)
        then show ?thesis using g1 c1 by simp
      next
        case False
        have eq: "executeNextNodes ag workflow pid w = executeNextNodes ag workflow pid w1"
          using run ne False by (subst executeNextNodes.simps) (simp add: st Let_def eb r)
        have run': "status s \<noteq> Paused" "\<not> (status s = Completed \<or> status s = Failed)"
          and ne': "length ?next \<noteq> 0"
          using run ne by simp_all
        from "1.IH" [OF st run' refl ne' eb [symmetric] r False d g1 c1]
        show ?thesis unfolding eq .
      qed
    qed
  qed
qed

lemma storeStrategy_states:
  "workflowStates (snd (storeStrategy tools d sel w)) = workflowStates w"
  by (simp add: storeStrategy_def executeTool_def split: ToolOutcome.splits)

lemma processStrategyDecision_states:
  "workflowStates (snd (processStrategyDecision tools pid d sel w)) = workflowStates w"
  by (simp add: processStrategyDecision_def executeTool_def storeStrategy_states markApproved_def
        split: option.splits ToolOutcome.splits)

lemma approveDecision_consistent:
  assumes d: "distinct (map node_id (nodes workflow))"
    and st: "getWorkflowState w pid = Some s" and c: "consistentLists s"
  shows "\<exists>s'. getWorkflowState (snd (approveDecision ag tools workflow pid decisionId selected w)) pid
                = Some s' \<and> consistentLists s'"
proof -
  let ?s1 = "s\<lparr>pendingDecisions := filter (\<lambda>i. i \<noteq> decisionId) (pendingDecisions s),
              status := (if filter (\<lambda>i. i \<noteq> decisionId) (pendingDecisions s) \<noteq> []
                         then Paused else Running)\<rparr>"
  obtain w1 where rp: "removePendingDecision w pid decisionId = Inr w1"
    and g1: "getWorkflowState w1 pid = Some ?s1"
    using st
    by (simp add: removePendingDecision_def Let_def getWorkflowState_update applyUpdates_def
          noUpdates_def)
  have c1: "consistentLists ?s1" using c by (simp add: consistentLists_def)
  obtain r w3 where ps: "processStrategyDecision tools pid decisionId selected
                  (logEvent (DecisionApproved decisionId selected) w1) = (r, w3)" by force
  have "workflowStates w3 = workflowStates w1"
    using processStrategyDecision_states [of tools pid decisionId selected
        "logEvent (DecisionApproved decisionId selected) w1"] ps by simp
  then have g3: "getWorkflowState w3 pid = Some ?s1"
    using g1 by (simp add: getWorkflowState_def)
  show ?thesis
  proof (cases r)
    case (StrategyFailure e)
    then show ?thesis using g3 c1 by (simp add: approveDecision_def rp ps)
  next
    case StrategySuccess
    show ?thesis
    proof (cases "\<exists>n. currentNode s = Some n \<and> n \<noteq> []")
      case False
      then have "approveDecision ag tools workflow pid decisionId selected w
          = executeNextNodes ag workflow pid w3"
        by (auto simp add: approveDecision_def rp ps StrategySuccess g3 split: option.splits)
      with executeNextNodes_consistent [OF d g3 c1, of ag] show ?thesis by simp
    next
      case True
      then obtain n where n: "currentNode s = Some n" "n \<noteq> []" by blast
      let ?s4 = "?s1\<lparr>currentNode := None, completedNodes := completedNodes s @ [n]\<rparr>"
      obtain w4 where mc: "markNodeComplete w3 pid n = Inr w4"
        and g4: "getWorkflowState w4 pid = Some ?s4"
        using g3
        by (simp add: markNodeComplete_def getWorkflowState_update applyUpdates_def noUpdates_def)
      have c4: "consistentLists ?s4" using c n by (auto simp add: consistentLists_def)
      have "approveDecision ag tools workflow pid decisionId selected w
          = executeNextNodes ag workflow pid w4"
        using n by (simp add: approveDecision_def rp ps StrategySuccess g3 mc)
      with executeNextNodes_consistent [OF d g4 c4, of ag] show ?thesis by simp
    qed
  qed
qed

lemma startWorkflow_consistent:
  assumes d: "distinct (map node_id (nodes workflow))"
    and c: "\<forall>s. getWorkflowState w pid = Some s \<longrightarrow> consistentLists s"
  shows "\<exists>s'. getWorkflowState (snd (startWorkflow ag workflow pid sid w)) pid = Some s' \<and>
              consistentLists s'"
proof -
  let ?fresh = "\<lparr>state_id = sid, projectId = pid, currentNode = None, completedNodes = [],
                  failedNodes = [], pendingDecisions = [], status = Running\<rparr>"
  have cf: "consistentLists ?fresh" by (simp add: consistentLists_def)
  have fresh: "\<exists>s'. getWorkflowState (snd (executeNextNodes ag workflow pid
                  (logEvent WorkflowStarted (createWorkflowState w0 pid sid)))) pid = Some s' \<and>
              consistentLists s'"
    if "getWorkflowState w0 pid = None" for w0
    by (rule executeNextNodes_consistent [OF d _ cf]) (simp add: getWorkflowState_create [OF that])
  show ?thesis
  proof (cases "getWorkflowState w pid")
    case None
    with fresh [OF None] show ?thesis by (simp add: startWorkflow_def)
  next
    case (Some s)
    show ?thesis
    proof (cases "status s = Running \<or> status s = Paused")
      case True
      with executeNextNodes_consistent [OF d Some, of ag] c Some show ?thesis
        by (simp add: startWorkflow_def)
    next
      case False
      with fresh [OF getWorkflowState_delete [of w pid]] Some show ?thesis
        by (simp add: startWorkflow_def)
    qed
  qed
qed

lemma cancelWorkflow_consistent:
  assumes "getWorkflowState w pid = Some s" and "consistentLists s"
  shows "\<exists>s'. getWorkflowState (cancelWorkflow w pid) pid = Some s' \<and> consistentLists s'"
  using assms
  by (simp add: cancelWorkflow_def getWorkflowState_update applyUpdates_def noUpdates_def
        consistentLists_def)

subsection \<open>The claim\<close>

text \<open>
  C9, as stated, fails on a run state in which a node id is both completed and failed,
  and the executor reaches such states when two nodes share an id. In
  \<open>sharedIdWorkflow\<close> the first batch holds both nodes with the id \<open>A\<close>; the first
  completes and the second fails, so the run started on an empty store ends with
  \<open>A\<close> in \<^verbatim>\<open>completedNodes\<close> and in \<^verbatim>\<open>failedNodes\<close>, and in that state
  \<open>B\<close>, whose dependency \<open>A\<close> is in \<^verbatim>\<open>failedNodes\<close>, is in the next-eligible set.
\<close>

theorem shared_id_unblocks_dependent:
  "map_option completedNodes (getWorkflowState sharedIdRun ''p1'') = Some [''A''] \<and>
   map_option failedNodes (getWorkflowState sharedIdRun ''p1'') = Some [''A''] \<and>
   dependencies nodeB = [''A''] \<and>
   getNextNodes sharedIdWorkflow [''A''] [''A''] = [nodeB]"
  by code_simp

text \<open>
  C9, amended. For every graph and run state, a node is in the next-eligible set if and
  only if it is a node of the graph, its id is neither in \<^verbatim>\<open>completedNodes\<close> nor in
  \<^verbatim>\<open>failedNodes\<close>, and all its dependencies are in \<^verbatim>\<open>completedNodes\<close>. So a node
  with a dependency that is in \<^verbatim>\<open>failedNodes\<close> and not in \<^verbatim>\<open>completedNodes\<close> is
  never eligible; and in a run state in which no id is both completed and failed, no
  eligible node has a dependency in \<^verbatim>\<open>failedNodes\<close>. For a graph whose node ids are
  pairwise distinct the executor keeps the run state such: \<^verbatim>\<open>startWorkflow\<close>,
  \<^verbatim>\<open>approveDecision\<close> and stop (\<^verbatim>\<open>cancelWorkflow\<close>) lead from a state in which no id
  is both completed and failed (and \<^verbatim>\<open>currentNode\<close> is not a failed node) to such a
  state, and \<^verbatim>\<open>startWorkflow\<close> on a project without state leads to one. And in the
  graph \<open>A \<rightarrow> B \<rightarrow> C\<close> (\<open>B\<close> depends on \<open>A\<close>, \<open>C\<close> on \<open>B\<close>) with a delegate of
  \<open>A\<close> that always fails, a run started on a project with no state ends with status
  failed, \<^verbatim>\<open>failedNodes = [A]\<close> and \<^verbatim>\<open>completedNodes = []\<close>; only \<open>A\<close> is ever
  started, and only its delegate is invoked.
\<close>

theorem failed_dependency_amended:
  "(n \<in> set (getNextNodes g completed failed) \<longleftrightarrow>
      n \<in> set (nodes g) \<and> node_id n \<notin> set completed \<and> node_id n \<notin> set failed \<and>
      set (dependencies n) \<subseteq> set completed) \<and>
   (d \<in> set (dependencies n) \<and> d \<in> set failed \<and> d \<notin> set completed \<longrightarrow>
      n \<notin> set (getNextNodes g completed failed)) \<and>
   (consistentLists s \<and> n \<in> set (getNextNodes g (completedNodes s) (failedNodes s)) \<longrightarrow>
      set (dependencies n) \<inter> set (failedNodes s) = {}) \<and>
   (distinct (map node_id (nodes workflow)) \<and> getWorkflowState w pid = Some s \<and>
    consistentLists s \<longrightarrow>
      (\<exists>s'. getWorkflowState (snd (startWorkflow ag workflow pid sid w)) pid = Some s' \<and>
            consistentLists s') \<and>
      (\<exists>s'. getWorkflowState
              (snd (approveDecision ag tools workflow pid decisionId selected w)) pid = Some s' \<and>
            consistentLists s') \<and>
      (\<exists>s'. getWorkflowState (cancelWorkflow w pid) pid = Some s' \<and> consistentLists s')) \<and>
   (distinct (map node_id (nodes workflow)) \<and> getWorkflowState w pid = None \<longrightarrow>
      (\<exists>s'. getWorkflowState (snd (startWorkflow ag workflow pid sid w)) pid = Some s' \<and>
            consistentLists s')) \<and>
   (nodes workflow = [a, b, c] \<and> node_id a = ''A'' \<and> node_id b = ''B'' \<and> node_id c = ''C'' \<and>
    dependencies a = [] \<and> dependencies b = [''A''] \<and> dependencies c = [''B''] \<and>
    ag (agentId a) = Some run \<and> (\<forall>k. failing (run k)) \<and> getWorkflowState w pid = None \<longrightarrow>
    (\<exists>w'. startWorkflow ag workflow pid sid w = (Inr (RunTerminal Failed [] [''A'']), w') \<and>
          getWorkflowState w' pid =
            Some \<lparr>state_id = sid, projectId = pid, currentNode = None, completedNodes = [],
                  failedNodes = [''A''], pendingDecisions = [], status = Failed\<rparr> \<and>
          events w' = events w @ [WorkflowStarted, NodeStarting ''A'',
                                   NodeFailed ''A'' (Suc (maxRetriesOf a))] \<and>
          agentCalls w' = agentCalls w @ replicate (Suc (maxRetriesOf a)) (agentId a)))"
proof -
  have p1: "n \<in> set (getNextNodes g completed failed) \<longleftrightarrow>
      n \<in> set (nodes g) \<and> node_id n \<notin> set completed \<and> node_id n \<notin> set failed \<and>
      set (dependencies n) \<subseteq> set completed"
    by (auto simp: getNextNodes_def areDependenciesSatisfied_def list_all_iff)
  have p2: "n \<notin> set (getNextNodes g completed failed)"
    if "d \<in> set (dependencies n) \<and> d \<in> set failed \<and> d \<notin> set completed"
    using that getNextNodes_dependencies [of n g completed failed d] by blast
  have p3: "set (dependencies n) \<inter> set (failedNodes s) = {}"
    if "consistentLists s \<and> n \<in> set (getNextNodes g (completedNodes s) (failedNodes s))"
    using that getNextNodes_dependencies [of n g "completedNodes s" "failedNodes s"]
    unfolding consistentLists_def by blast
  have p4: "(\<exists>s'. getWorkflowState (snd (startWorkflow ag workflow pid sid w)) pid = Some s' \<and>
            consistentLists s') \<and>
      (\<exists>s'. getWorkflowState
              (snd (approveDecision ag tools workflow pid decisionId selected w)) pid = Some s' \<and>
            consistentLists s') \<and>
      (\<exists>s'. getWorkflowState (cancelWorkflow w pid) pid = Some s' \<and> consistentLists s')"
    if h: "distinct (map node_id (nodes workflow)) \<and> getWorkflowState w pid = Some s \<and>
      consistentLists s"
  proof (intro conjI)
    from h have d: "distinct (map node_id (nodes workflow))"
      and st: "getWorkflowState w pid = Some s" and c: "consistentLists s" by blast+
    from st c have "\<forall>s. getWorkflowState w pid = Some s \<longrightarrow> consistentLists s" by simp
    from startWorkflow_consistent [OF d this]
    show "\<exists>s'. getWorkflowState (snd (startWorkflow ag workflow pid sid w)) pid = Some s' \<and>
            consistentLists s'" .
    from approveDecision_consistent [OF d st c]
    show "\<exists>s'. getWorkflowState
              (snd (approveDecision ag tools workflow pid decisionId selected w)) pid = Some s' \<and>
            consistentLists s'" .
    from cancelWorkflow_consistent [OF st c]
    show "\<exists>s'. getWorkflowState (cancelWorkflow w pid) pid = Some s' \<and> consistentLists s'" .
  qed
  have p5: "\<exists>s'. getWorkflowState (snd (startWorkflow ag workflow pid sid w)) pid = Some s' \<and>
            consistentLists s'"
    if "distinct (map node_id (nodes workflow)) \<and> getWorkflowState w pid = None"
    by (rule startWorkflow_consistent) (use that in simp_all)
  have p6: "\<exists>w'. startWorkflow ag workflow pid sid w = (Inr (RunTerminal Failed [] [''A'']), w') \<and>
          getWorkflowState w' pid =
            Some \<lparr>state_id = sid, projectId = pid, currentNode = None, completedNodes = [],
                  failedNodes = [''A''], pendingDecisions = [], status = Failed\<rparr> \<and>
          events w' = events w @ [WorkflowStarted, NodeStarting ''A'',
                                   NodeFailed ''A'' (Suc (maxRetriesOf a))] \<and>
          agentCalls w' = agentCalls w @ replicate (Suc (maxRetriesOf a)) (agentId a)"
    if h: "nodes workflow = [a, b, c] \<and> node_id a = ''A'' \<and> node_id b = ''B'' \<and> node_id c = ''C'' \<and>
    dependencies a = [] \<and> dependencies b = [''A''] \<and> dependencies c = [''B''] \<and>
    ag (agentId a) = Some run \<and> (\<forall>k. failing (run k)) \<and> getWorkflowState w pid = None"
    by (rule stuck_branch [where b = b and c = c and run = run]) (use h in simp_all)
  show ?thesis
    apply (intro conjI)
         apply (rule p1)
        apply (rule impI, rule p2, assumption)
       apply (rule impI, rule p3, assumption)
      apply (rule impI, rule p4, assumption)
     apply (rule impI, rule p5, assumption)
    apply (rule impI, rule p6, assumption)
    done
qed

theorem failed_dependency_amended_witness:
  "nodeB \<notin> set (getNextNodes chainWorkflow [] [''A'']) \<and>
   (\<exists>w'. startWorkflow failingAgents chainWorkflow ''p1'' ''s1'' emptyWorld
            = (Inr (RunTerminal Failed [] [''A'']), w') \<and>
          events w' = [WorkflowStarted, NodeStarting ''A'', NodeFailed ''A'' 1] \<and>
          agentCalls w' = [''agent_a'']) \<and>
   (\<exists>s'. getWorkflowState (snd (startWorkflow failingAgents chainWorkflow ''p1'' ''s1'' emptyWorld))
            ''p1'' = Some s' \<and> consistentLists s') \<and>
   (\<exists>s'. getWorkflowState (snd (startWorkflow failingAgents chainWorkflow ''p1'' ''s2'' runningWorld))
            ''p1'' = Some s' \<and> consistentLists s') \<and>
   (\<exists>s'. getWorkflowState
            (snd (approveDecision failingAgents okTools chainWorkflow ''p1'' ''d1'' ''safe''
                    runningWorld)) ''p1'' = Some s' \<and> consistentLists s')"
proof -
  note t = failed_dependency_amended [where g = chainWorkflow and completed = "[]"
      and failed = "[''A'']" and n = nodeB and d = "''A''"
      and workflow = chainWorkflow and a = noPolicyNode and b = nodeB
      and c = nodeC and ag = failingAgents and run = "\<lambda>k. Throws" and w = emptyWorld
      and pid = "''p1''" and sid = "''s1''"]
  note t2 = failed_dependency_amended [where workflow = chainWorkflow and ag = failingAgents
      and w = runningWorld and pid = "''p1''" and sid = "''s2''"
      and s = "hd (workflowStates runningWorld)" and tools = okTools and decisionId = "''d1''"
      and selected = "''safe''"]
  have m: "maxRetriesOf noPolicyNode = 0" "agentId noPolicyNode = ''agent_a''"
    "events emptyWorld = []" "agentCalls emptyWorld = []"
    by (simp_all add: maxRetriesOf_def configuredMaxRetries_def orDefault_def noPolicyNode_def
          emptyWorld_def)
  have h: "nodes chainWorkflow = [noPolicyNode, nodeB, nodeC] \<and> node_id noPolicyNode = ''A'' \<and>
    node_id nodeB = ''B'' \<and> node_id nodeC = ''C'' \<and>
    dependencies noPolicyNode = [] \<and> dependencies nodeB = [''A''] \<and> dependencies nodeC = [''B''] \<and>
    failingAgents (agentId noPolicyNode) = Some (\<lambda>k. Throws) \<and> (\<forall>k. failing (Throws)) \<and>
    getWorkflowState emptyWorld ''p1'' = None"
    by (simp add: chainWorkflow_def noPolicyNode_def nodeB_def nodeC_def failingAgents_def
          failing_def emptyWorld_def getWorkflowState_def)
  have dn: "distinct (map node_id (nodes chainWorkflow)) \<and> getWorkflowState emptyWorld ''p1'' = None"
    by (simp add: chainWorkflow_def noPolicyNode_def nodeB_def nodeC_def emptyWorld_def
          getWorkflowState_def)
  have ds: "distinct (map node_id (nodes chainWorkflow)) \<and>
      getWorkflowState runningWorld ''p1'' = Some (hd (workflowStates runningWorld)) \<and>
      consistentLists (hd (workflowStates runningWorld))"
    by (simp add: chainWorkflow_def noPolicyNode_def nodeB_def nodeC_def runningWorld_def
          getWorkflowState_def consistentLists_def)
  have b: "''A'' \<in> set (dependencies nodeB) \<and> ''A'' \<in> set [''A''] \<and> ''A'' \<notin> set ([]::string list)"
    by (simp add: nodeB_def)
  from t b have c1: "nodeB \<notin> set (getNextNodes chainWorkflow [] [''A''])" by blast
  from t h have "\<exists>w'. startWorkflow failingAgents chainWorkflow ''p1'' ''s1'' emptyWorld
            = (Inr (RunTerminal Failed [] [''A'']), w') \<and>
          getWorkflowState w' ''p1'' =
            Some \<lparr>state_id = ''s1'', projectId = ''p1'', currentNode = None, completedNodes = [],
                  failedNodes = [''A''], pendingDecisions = [], status = Failed\<rparr> \<and>
          events w' = events emptyWorld @ [WorkflowStarted, NodeStarting ''A'',
                                   NodeFailed ''A'' (Suc (maxRetriesOf noPolicyNode))] \<and>
          agentCalls w' = agentCalls emptyWorld @
              replicate (Suc (maxRetriesOf noPolicyNode)) (agentId noPolicyNode)"
    by blast
  then have c2: "\<exists>w'. startWorkflow failingAgents chainWorkflow ''p1'' ''s1'' emptyWorld
            = (Inr (RunTerminal Failed [] [''A'']), w') \<and>
          events w' = [WorkflowStarted, NodeStarting ''A'', NodeFailed ''A'' 1] \<and>
          agentCalls w' = [''agent_a'']"
    by (simp add: m) blast
  from t dn have c3: "\<exists>s'. getWorkflowState
        (snd (startWorkflow failingAgents chainWorkflow ''p1'' ''s1'' emptyWorld))
            ''p1'' = Some s' \<and> consistentLists s'"
    by blast
  from t2 ds have c4: "(\<exists>s'. getWorkflowState
        (snd (startWorkflow failingAgents chainWorkflow ''p1'' ''s2'' runningWorld))
            ''p1'' = Some s' \<and> consistentLists s') \<and>
   (\<exists>s'. getWorkflowState
            (snd (approveDecision failingAgents okTools chainWorkflow ''p1'' ''d1'' ''safe''
                    runningWorld)) ''p1'' = Some s' \<and> consistentLists s')"
    by blast
  from c1 c2 c3 c4 show ?thesis by blast
qed

section \<open>Validation of the workflow graph (C7)\<close>

lemma firstDependsOn_find_Some:
  "find (\<lambda>n. node_id n = x) (nodes workflow) = Some node \<Longrightarrow>
   (x, y) \<in> firstDependsOn workflow \<longleftrightarrow> y \<in> set (dependencies node)"
  by (simp add: firstDependsOn_def)

lemma firstDependsOn_find_None:
  "find (\<lambda>n. node_id n = x) (nodes workflow) = None \<Longrightarrow> (x, y) \<notin> firstDependsOn workflow"
  by (simp add: firstDependsOn_def)

lemma firstDependsOn_subset: "firstDependsOn workflow \<subseteq> dependsOn workflow"
proof
  fix e assume "e \<in> firstDependsOn workflow"
  then obtain x d node where e: "e = (x, d)"
    and f: "find (\<lambda>n. node_id n = x) (nodes workflow) = Some node"
    and d: "d \<in> set (dependencies node)"
    unfolding firstDependsOn_def by blast
  from f have "node \<in> set (nodes workflow)" "node_id node = x"
    by (auto simp: find_Some_iff)
  with d show "e \<in> dependsOn workflow" unfolding e dependsOn_def by blast
qed

lemma firstDependsOn_distinct:
  assumes d: "distinct (map node_id (nodes workflow))"
  shows "firstDependsOn workflow = dependsOn workflow"
proof (rule equalityI [OF firstDependsOn_subset], rule subsetI)
  fix e assume "e \<in> dependsOn workflow"
  then obtain n y where e: "e = (node_id n, y)" and n: "n \<in> set (nodes workflow)"
    and y: "y \<in> set (dependencies n)"
    unfolding dependsOn_def by blast
  from n obtain node where f: "find (\<lambda>m. node_id m = node_id n) (nodes workflow) = Some node"
    by (cases "find (\<lambda>m. node_id m = node_id n) (nodes workflow)") (auto simp: find_None_iff)
  then have m: "node \<in> set (nodes workflow)" and i: "node_id node = node_id n"
    by (auto simp: find_Some_iff)
  from d m n i have "node = n" by (auto simp: distinct_map dest: inj_onD)
  with f y show "e \<in> firstDependsOn workflow" by (simp add: e firstDependsOn_def)
qed

lemma closed_rtrancl:
  assumes "(x, y) \<in> E\<^sup>*" and "x \<in> D" and "\<forall>a\<in>D. \<forall>b. (a, b) \<in> E \<longrightarrow> b \<in> D"
  shows "y \<in> D"
  using assms by (induction rule: rtrancl_induct) auto

lemma reachesCycle_step:
  "(x, y) \<in> (firstDependsOn workflow)\<^sup>* \<Longrightarrow> reachesCycle (firstDependsOn workflow) y \<Longrightarrow> reachesCycle (firstDependsOn workflow) x"
  unfolding reachesCycle_def by (meson rtrancl_trans)

lemma reachesCycle_self:
  "(x, x) \<in> (firstDependsOn workflow)\<^sup>+ \<Longrightarrow> reachesCycle (firstDependsOn workflow) x"
  unfolding reachesCycle_def by blast

lemma dfsInv_done_no_cycle:
  assumes "dfsInv workflow st" and "x \<in> fst st - snd st"
  shows "\<not> reachesCycle (firstDependsOn workflow) x"
proof
  assume "reachesCycle (firstDependsOn workflow) x"
  then obtain c where xc: "(x, c) \<in> (firstDependsOn workflow)\<^sup>*"
    and cc: "(c, c) \<in> (firstDependsOn workflow)\<^sup>+"
    by (auto simp: reachesCycle_def)
  have cl: "\<forall>a\<in>fst st - snd st. \<forall>b. (a, b) \<in> firstDependsOn workflow \<longrightarrow> b \<in> fst st - snd st"
    and ac: "\<forall>a \<in> fst st - snd st. (a, a) \<notin> (firstDependsOn workflow)\<^sup>+"
    using assms(1) unfolding dfsInv_def by blast+
  from closed_rtrancl [OF xc assms(2) cl] have "c \<in> fst st - snd st" .
  with ac cc show False by blast
qed

lemma dfsStep_refl: "dfsInv workflow st \<Longrightarrow> dfsStep workflow st st"
  by (simp add: dfsStep_def)

lemma dfsStep_trans:
  "dfsStep workflow st st1 \<Longrightarrow> dfsStep workflow st1 st2 \<Longrightarrow> dfsStep workflow st st2"
  unfolding dfsStep_def by blast

lemma dfsInv_push:
  assumes "dfsInv workflow (V, S)" and "n \<notin> V"
  shows "dfsInv workflow (insert n V, insert n S)"
    and "insert n V - insert n S = V - S"
proof -
  show e: "insert n V - insert n S = V - S" using assms(2) by blast
  from assms(1) have "S \<subseteq> V" by (simp add: dfsInv_def)
  then have "insert n S \<subseteq> insert n V" by blast
  with assms(1) show "dfsInv workflow (insert n V, insert n S)"
    unfolding dfsInv_def fst_conv snd_conv e by blast
qed

text \<open>A node is done: all its dependencies are done, and it was on the stack.\<close>

lemma dfsInv_pop:
  assumes inv: "dfsInv workflow (V, insert n S)" and nS: "n \<notin> S"
    and succ: "\<forall>b. (n, b) \<in> firstDependsOn workflow \<longrightarrow> b \<in> V - insert n S"
  shows "dfsInv workflow (V, S)"
proof -
  let ?E = "firstDependsOn workflow"
  let ?D = "V - insert n S"
  from inv have sub: "insert n S \<subseteq> V"
    and cl: "\<forall>a\<in>?D. \<forall>b. (a, b) \<in> ?E \<longrightarrow> b \<in> ?D"
    and ac: "\<forall>a\<in>?D. (a, a) \<notin> ?E\<^sup>+"
    unfolding dfsInv_def fst_conv snd_conv by blast+
  have D': "V - S = insert n ?D" using sub nS by blast
  have nn: "(n, n) \<notin> ?E\<^sup>+"
  proof
    assume "(n, n) \<in> ?E\<^sup>+"
    then obtain z where nz: "(n, z) \<in> ?E" and zn: "(z, n) \<in> ?E\<^sup>*"
      by (blast dest: tranclD)
    from succ nz have "z \<in> ?D" by blast
    from closed_rtrancl [OF zn this cl] show False by blast
  qed
  have "S \<subseteq> V" using sub by blast
  moreover have "\<forall>a\<in>V - S. \<forall>b. (a, b) \<in> ?E \<longrightarrow> b \<in> V - S"
    unfolding D' using cl succ by blast
  moreover have "\<forall>a\<in>V - S. (a, a) \<notin> ?E\<^sup>+"
    unfolding D' using ac nn by blast
  ultimately show ?thesis unfolding dfsInv_def fst_conv snd_conv by blast
qed

lemma hasCycle_correct:
  "dfsInv workflow st \<Longrightarrow> hasCycle workflow nodeId st = (r, st') \<Longrightarrow>
     dfsStep workflow st st' \<and>
     (\<not> r \<longrightarrow> snd st' = snd st \<and> nodeId \<in> fst st' - snd st') \<and>
     (r \<longrightarrow> (\<forall>x\<in>snd st. reachesCycle (firstDependsOn workflow) x \<or> (x, nodeId) \<in> (firstDependsOn workflow)\<^sup>+) \<longrightarrow>
          reachesCycle (firstDependsOn workflow) nodeId \<and> (\<forall>x\<in>snd st'. reachesCycle (firstDependsOn workflow) x))"
  "dfsInv workflow st \<Longrightarrow> hasCycleDeps workflow deps st = (r, st') \<Longrightarrow>
     dfsStep workflow st st' \<and>
     (\<not> r \<longrightarrow> snd st' = snd st \<and> set deps \<subseteq> fst st' - snd st') \<and>
     (r \<longrightarrow> (\<forall>x\<in>snd st. reachesCycle (firstDependsOn workflow) x \<or>
                      (\<forall>d\<in>set deps. (x, d) \<in> (firstDependsOn workflow)\<^sup>+)) \<longrightarrow>
          (\<exists>d\<in>set deps. reachesCycle (firstDependsOn workflow) d) \<and> (\<forall>x\<in>snd st'. reachesCycle (firstDependsOn workflow) x))"
proof (induction workflow nodeId st and workflow deps st arbitrary: r st' and r st'
    rule: hasCycle_hasCycleDeps.induct)
  case (1 workflow nodeId V S)
  let ?E = "firstDependsOn workflow"
  note inv = "1.prems"(1) and hc = "1.prems"(2)
  show ?case
  proof (cases "nodeId \<in> S")
    case True
    with hc have r: "r" and st': "st' = (V, S)" by (simp_all add: hasCycle.simps)
    have "reachesCycle (firstDependsOn workflow) nodeId \<and> (\<forall>x\<in>S. reachesCycle (firstDependsOn workflow) x)"
      if pre: "\<forall>x\<in>S. reachesCycle (firstDependsOn workflow) x \<or> (x, nodeId) \<in> ?E\<^sup>+"
    proof -
      from pre True have n: "reachesCycle (firstDependsOn workflow) nodeId"
        using reachesCycle_self by blast
      moreover have "reachesCycle (firstDependsOn workflow) x" if "x \<in> S" for x
        using pre that n reachesCycle_step [of x nodeId workflow] by (blast dest: trancl_into_rtrancl)
      ultimately show ?thesis by blast
    qed
    then show ?thesis using r inv by (simp add: st' dfsStep_refl)
  next
    case nS: False
    show ?thesis
    proof (cases "nodeId \<in> V")
      case True
      with nS hc have r: "\<not> r" and st': "st' = (V, S)" by (simp_all add: hasCycle.simps)
      then show ?thesis using inv True nS by (simp add: dfsStep_refl)
    next
      case nV: False
      from dfsInv_push [OF inv nV]
      have inv1: "dfsInv workflow (insert nodeId V, insert nodeId S)"
        and e1: "insert nodeId V - insert nodeId S = V - S" .
      have p: "insert nodeId S - {nodeId} = S" using nS by blast
      show ?thesis
      proof (cases "find (\<lambda>n. node_id n = nodeId) (nodes workflow)")
        case None
        with nS nV hc have r: "\<not> r" and st': "st' = (insert nodeId V, S)"
          by (simp_all add: hasCycle.simps p)
        have inv': "dfsInv workflow (insert nodeId V, S)"
          by (rule dfsInv_pop [OF inv1 nS]) (simp add: firstDependsOn_find_None [OF None])
        have "dfsStep workflow (V, S) (insert nodeId V, S)"
          using inv' unfolding dfsStep_def by auto
        then show ?thesis using r nS by (simp add: st')
      next
        case (Some node)
        obtain r1 st2 where hd: "hasCycleDeps workflow (dependencies node)
            (insert nodeId V, insert nodeId S) = (r1, st2)" by (meson surj_pair)
        note ih = "1.IH" [OF nS nV Some inv1 hd, unfolded snd_conv fst_conv]
        from ih
        have step1: "dfsStep workflow (insert nodeId V, insert nodeId S) st2"
          and F: "\<not> r1 \<Longrightarrow> snd st2 = insert nodeId S \<and> set (dependencies node) \<subseteq> fst st2 - snd st2"
          and T: "r1 \<Longrightarrow> (\<forall>x\<in>insert nodeId S. reachesCycle (firstDependsOn workflow) x \<or>
                      (\<forall>d\<in>set (dependencies node). (x, d) \<in> ?E\<^sup>+)) \<Longrightarrow>
                (\<exists>d\<in>set (dependencies node). reachesCycle (firstDependsOn workflow) d) \<and>
                (\<forall>x\<in>snd st2. reachesCycle (firstDependsOn workflow) x)"
          by blast+
        from step1 have inv2: "dfsInv workflow st2" and s2: "insert nodeId S \<subseteq> snd st2"
          and d2: "V - S \<subseteq> fst st2 - snd st2"
          unfolding dfsStep_def fst_conv snd_conv e1 by blast+
        note ed = firstDependsOn_find_Some [OF Some]
        show ?thesis
        proof (cases r1)
          case True
          with nS nV hc Some hd have r: "r" and st': "st' = st2"
            by (simp_all add: hasCycle.simps)
          have stp: "dfsStep workflow (V, S) st2"
            using inv2 s2 d2 unfolding dfsStep_def by auto
          have "reachesCycle (firstDependsOn workflow) nodeId \<and> (\<forall>x\<in>snd st2. reachesCycle (firstDependsOn workflow) x)"
            if pre: "\<forall>x\<in>S. reachesCycle (firstDependsOn workflow) x \<or> (x, nodeId) \<in> ?E\<^sup>+"
          proof -
            have "reachesCycle (firstDependsOn workflow) x \<or> (\<forall>d\<in>set (dependencies node). (x, d) \<in> ?E\<^sup>+)"
              if "x \<in> insert nodeId S" for x
            proof (cases "x = nodeId")
              case True
              then show ?thesis using ed by blast
            next
              case False
              with that pre have "reachesCycle (firstDependsOn workflow) x \<or> (x, nodeId) \<in> ?E\<^sup>+" by blast
              then show ?thesis using ed by (blast intro: trancl_into_trancl)
            qed
            with T [OF True] obtain dd where dd: "dd \<in> set (dependencies node)"
              "reachesCycle (firstDependsOn workflow) dd" and all: "\<forall>x\<in>snd st2. reachesCycle (firstDependsOn workflow) x"
              by blast
            from dd ed have "(nodeId, dd) \<in> ?E\<^sup>*" by blast
            from reachesCycle_step [OF this dd(2)] all show ?thesis by blast
          qed
          then show ?thesis using r stp by (simp add: st')
        next
          case False
          from F [OF False] have sn: "snd st2 = insert nodeId S"
            and dp: "set (dependencies node) \<subseteq> fst st2 - snd st2" by blast+
          from sn have st2: "st2 = (fst st2, insert nodeId S)" by (cases st2) simp
          from False have "r1 = False" by simp
          with hd st2
          have "hasCycleDeps workflow (dependencies node) (insert nodeId V, insert nodeId S)
                  = (False, fst st2, insert nodeId S)" by metis
          with nS nV hc Some have r: "\<not> r" and st': "st' = (fst st2, S)"
            by (simp_all add: hasCycle.simps p)
          from inv2 sn have inv2': "dfsInv workflow (fst st2, insert nodeId S)"
            by (metis prod.collapse)
          have inv': "dfsInv workflow (fst st2, S)"
            by (rule dfsInv_pop [OF inv2' nS]) (use dp ed sn in blast)
          from inv2 sn have "nodeId \<in> fst st2" unfolding dfsInv_def by blast
          moreover have "dfsStep workflow (V, S) (fst st2, S)"
            using inv' d2 sn unfolding dfsStep_def by auto
          ultimately show ?thesis using r nS by (simp add: st')
        qed
      qed
    qed
  qed
next
  case (2 workflow st)
  then show ?case by (auto simp: dfsStep_refl)
next
  case (3 workflow dep deps st)
  let ?E = "firstDependsOn workflow"
  note inv = "3.prems"(1) and hc = "3.prems"(2)
  obtain r1 st1 where h1: "hasCycle workflow dep st = (r1, st1)" by (meson surj_pair)
  from "3.IH"(1) [OF inv h1]
  have step1: "dfsStep workflow st st1"
    and F1: "\<not> r1 \<Longrightarrow> snd st1 = snd st \<and> dep \<in> fst st1 - snd st1"
    and T1: "r1 \<Longrightarrow> (\<forall>x\<in>snd st. reachesCycle (firstDependsOn workflow) x \<or> (x, dep) \<in> ?E\<^sup>+) \<Longrightarrow>
          reachesCycle (firstDependsOn workflow) dep \<and> (\<forall>x\<in>snd st1. reachesCycle (firstDependsOn workflow) x)"
    by blast+
  show ?case
  proof (cases r1)
    case True
    with hc h1 have r: "r" and st': "st' = st1" by simp_all
    show ?thesis using r step1 T1 [OF True] by (auto simp add: st')
  next
    case False
    with hc h1 have h2: "hasCycleDeps workflow deps st1 = (r, st')" by simp
    from step1 have inv1: "dfsInv workflow st1" by (simp add: dfsStep_def)
    from False have r1f: "r1 = False" by simp
    from "3.IH"(2) [OF h1 [symmetric] r1f inv1 h2]
    have step2: "dfsStep workflow st1 st'"
      and F2: "\<not> r \<Longrightarrow> snd st' = snd st1 \<and> set deps \<subseteq> fst st' - snd st'"
      and T2: "r \<Longrightarrow> (\<forall>x\<in>snd st1. reachesCycle (firstDependsOn workflow) x \<or>
                      (\<forall>d\<in>set deps. (x, d) \<in> ?E\<^sup>+)) \<Longrightarrow>
          (\<exists>d\<in>set deps. reachesCycle (firstDependsOn workflow) d) \<and> (\<forall>x\<in>snd st'. reachesCycle (firstDependsOn workflow) x)"
      by blast+
    from F1 [OF False] have s1: "snd st1 = snd st" and dd: "dep \<in> fst st1 - snd st1" by blast+
    from step2 dd have dd': "dep \<in> fst st' - snd st'" unfolding dfsStep_def by blast
    have a: "dfsStep workflow st st'" by (rule dfsStep_trans [OF step1 step2])
    have b: "\<not> r \<longrightarrow> snd st' = snd st \<and> set (dep # deps) \<subseteq> fst st' - snd st'"
      using F2 s1 dd' by auto
    have c: "r \<longrightarrow> (\<forall>x\<in>snd st. reachesCycle (firstDependsOn workflow) x \<or>
                      (\<forall>d\<in>set (dep # deps). (x, d) \<in> ?E\<^sup>+)) \<longrightarrow>
          (\<exists>d\<in>set (dep # deps). reachesCycle (firstDependsOn workflow) d) \<and>
          (\<forall>x\<in>snd st'. reachesCycle (firstDependsOn workflow) x)"
    proof (intro impI)
      assume r: r and pre: "\<forall>x\<in>snd st. reachesCycle (firstDependsOn workflow) x \<or>
                      (\<forall>d\<in>set (dep # deps). (x, d) \<in> ?E\<^sup>+)"
      then have "\<forall>x\<in>snd st1. reachesCycle (firstDependsOn workflow) x \<or> (\<forall>d\<in>set deps. (x, d) \<in> ?E\<^sup>+)"
        unfolding s1 by auto
      from T2 [OF r this] show "(\<exists>d\<in>set (dep # deps). reachesCycle (firstDependsOn workflow) d) \<and>
          (\<forall>x\<in>snd st'. reachesCycle (firstDependsOn workflow) x)" by auto
    qed
    from a b c show ?thesis by blast
  qed
qed

text \<open>
  The first loop, whatever the graph: in declaration order, one error for each node
  from whose id a cycle is reached.
\<close>

lemma cycleErrors_correct:
  "dfsInv workflow st \<Longrightarrow> \<forall>x\<in>snd st. reachesCycle (firstDependsOn workflow) x \<Longrightarrow>
   cycleErrors workflow ns st =
     map (\<lambda>n. ''Circular dependency detected involving node: '' @ node_id n)
       (filter (\<lambda>n. reachesCycle (firstDependsOn workflow) (node_id n)) ns)"
proof (induction ns arbitrary: st)
  case Nil
  show ?case by simp
next
  case (Cons node rest)
  obtain r st1 where h: "hasCycle workflow (node_id node) st = (r, st1)" by (meson surj_pair)
  note c = hasCycle_correct(1) [OF Cons.prems(1) h]
  from c have inv1: "dfsInv workflow st1" unfolding dfsStep_def by blast
  show ?case
  proof (cases r)
    case True
    with c Cons.prems(2) have rn: "reachesCycle (firstDependsOn workflow) (node_id node)"
      and all: "\<forall>x\<in>snd st1. reachesCycle (firstDependsOn workflow) x" by blast+
    from Cons.IH [OF inv1 all] rn show ?thesis
      by (simp add: h True)
  next
    case False
    with c have s1: "snd st1 = snd st" and dn: "node_id node \<in> fst st1 - snd st1" by blast+
    from dfsInv_done_no_cycle [OF inv1 dn]
    have nr: "\<not> reachesCycle (firstDependsOn workflow) (node_id node)" .
    from Cons.prems(2) s1 have all: "\<forall>x\<in>snd st1. reachesCycle (firstDependsOn workflow) x" by simp
    from Cons.IH [OF inv1 all] nr show ?thesis
      by (simp add: h False)
  qed
qed

lemma missingDependencyErrors_eq:
  "missingDependencyErrors workflow =
     concat (map (\<lambda>n.
               map (\<lambda>dep. ''Node '' @ node_id n @ '' depends on non-existent node: '' @ dep)
                 (filter (\<lambda>dep. dep \<notin> node_id ` set (nodes workflow)) (dependencies n)))
             (nodes workflow))"
proof -
  have "(\<not> list_ex (\<lambda>n. node_id n = dep) (nodes workflow))
          = (dep \<notin> node_id ` set (nodes workflow))" for dep
    by (auto simp: list_ex_iff)
  then show ?thesis by (simp add: missingDependencyErrors_def)
qed

lemma missingDependencyErrors_empty:
  "missingDependencyErrors workflow \<noteq> [] \<longleftrightarrow> hasDanglingDependency workflow"
  unfolding missingDependencyErrors_eq hasDanglingDependency_def
  by (auto simp: filter_empty_conv)

lemma first_cycle_iff:
  "(\<exists>x. (x, x) \<in> (firstDependsOn workflow)\<^sup>+) \<longleftrightarrow>
     (\<exists>n\<in>set (nodes workflow). reachesCycle (firstDependsOn workflow) (node_id n))"
proof
  assume "\<exists>x. (x, x) \<in> (firstDependsOn workflow)\<^sup>+"
  then obtain x where xx: "(x, x) \<in> (firstDependsOn workflow)\<^sup>+" by blast
  then obtain z where "(x, z) \<in> firstDependsOn workflow" by (blast dest: tranclD)
  with firstDependsOn_subset have "(x, z) \<in> dependsOn workflow" by blast
  then obtain n where "n \<in> set (nodes workflow)" "x = node_id n"
    unfolding dependsOn_def by blast
  with reachesCycle_self [OF xx]
  show "\<exists>n\<in>set (nodes workflow). reachesCycle (firstDependsOn workflow) (node_id n)"
    by blast
next
  assume "\<exists>n\<in>set (nodes workflow). reachesCycle (firstDependsOn workflow) (node_id n)"
  then show "\<exists>x. (x, x) \<in> (firstDependsOn workflow)\<^sup>+"
    unfolding reachesCycle_def by blast
qed

lemma dfsInv_empty: "dfsInv workflow ({}, {})"
  by (simp add: dfsInv_def)

text \<open>
  C7, as stated, fails on a graph in which two nodes share an id: \<^verbatim>\<open>hasCycle\<close> looks
  a node up by its id and finds the first one, so a cycle through the dependencies of
  the second goes unseen. In \<open>duplicateWorkflow\<close> a node with the id \<open>A\<close> depends on
  \<open>A\<close>, no dependency names a missing node, and \<^verbatim>\<open>validateWorkflow\<close> reports no error.
\<close>

theorem duplicate_id_hides_cycle:
  "hasDependencyCycle duplicateWorkflow \<and>
   validateWorkflow duplicateWorkflow = \<lparr>valid = True, errors = []\<rparr>"
proof
  have "(''A'', ''A'') \<in> dependsOn duplicateWorkflow"
    unfolding dependsOn_def duplicateWorkflow_def noPolicyNode_def
    by (auto intro!: exI [of _ "\<lparr>node_id = ''A'', name = ''Node A again'', agentId = ''agent_a'',
           dependencies = [''A''], requiresApproval = False, retryPolicy = None, runQA = True,
           runCodeReview = True\<rparr>"])
  then show "hasDependencyCycle duplicateWorkflow"
    unfolding hasDependencyCycle_def by blast
  show "validateWorkflow duplicateWorkflow = \<lparr>valid = True, errors = []\<rparr>"
    by (simp add: validateWorkflow_def duplicateWorkflow_def noPolicyNode_def
          hasCycle.simps missingDependencyErrors_def Let_def)
qed

text \<open>
  C7, amended. For every graph, \<^verbatim>\<open>validateWorkflow\<close> returns, in this order: one
  circular-dependency error for each node, in declaration order, from whose id a cycle
  is reached along the dependencies that are looked up by id (those of the first node
  declared with each id); then one error for each dependency, of each node, that names
  no node. \<^verbatim>\<open>valid\<close> says that there is no error. So there is at least one error if
  and only if the looked-up dependencies have a cycle or some dependency names no node;
  and whenever there is an error, the graph has a dependency cycle or a dependency that
  names no node. For a graph whose node ids are pairwise distinct the looked-up
  dependencies are all the dependencies, and there is at least one error if and only if
  the graph has a dependency cycle or a dependency that names no node.
\<close>

theorem validateWorkflow_amended:
  "errors (validateWorkflow workflow) =
      map (\<lambda>n. ''Circular dependency detected involving node: '' @ node_id n)
        (filter (\<lambda>n. reachesCycle (firstDependsOn workflow) (node_id n)) (nodes workflow)) @
      concat (map (\<lambda>n.
                map (\<lambda>dep. ''Node '' @ node_id n @ '' depends on non-existent node: '' @ dep)
                  (filter (\<lambda>dep. dep \<notin> node_id ` set (nodes workflow)) (dependencies n)))
              (nodes workflow)) \<and>
   (valid (validateWorkflow workflow) \<longleftrightarrow> errors (validateWorkflow workflow) = []) \<and>
   (errors (validateWorkflow workflow) \<noteq> [] \<longleftrightarrow>
      (\<exists>x. (x, x) \<in> (firstDependsOn workflow)\<^sup>+) \<or> hasDanglingDependency workflow) \<and>
   (errors (validateWorkflow workflow) \<noteq> [] \<longrightarrow>
      hasDependencyCycle workflow \<or> hasDanglingDependency workflow) \<and>
   (distinct (map node_id (nodes workflow)) \<longrightarrow>
      firstDependsOn workflow = dependsOn workflow \<and>
      (errors (validateWorkflow workflow) \<noteq> [] \<longleftrightarrow>
         hasDependencyCycle workflow \<or> hasDanglingDependency workflow))"
proof -
  let ?C = "cycleErrors workflow (nodes workflow) ({}, {})"
  let ?M = "missingDependencyErrors workflow"
  let ?E = "firstDependsOn workflow"
  have e: "errors (validateWorkflow workflow) = ?C @ ?M"
    and v: "valid (validateWorkflow workflow) \<longleftrightarrow> errors (validateWorkflow workflow) = []"
    by (simp_all add: validateWorkflow_def Let_def)
  have C: "?C = map (\<lambda>n. ''Circular dependency detected involving node: '' @ node_id n)
        (filter (\<lambda>n. reachesCycle ?E (node_id n)) (nodes workflow))"
    by (rule cycleErrors_correct [OF dfsInv_empty]) simp
  have c0: "?C \<noteq> [] \<longleftrightarrow> (\<exists>x. (x, x) \<in> ?E\<^sup>+)"
    unfolding C first_cycle_iff by (auto simp: filter_empty_conv)
  note m0 = missingDependencyErrors_empty [of workflow]
  have p1: "errors (validateWorkflow workflow) =
      map (\<lambda>n. ''Circular dependency detected involving node: '' @ node_id n)
        (filter (\<lambda>n. reachesCycle ?E (node_id n)) (nodes workflow)) @
      concat (map (\<lambda>n.
                map (\<lambda>dep. ''Node '' @ node_id n @ '' depends on non-existent node: '' @ dep)
                  (filter (\<lambda>dep. dep \<notin> node_id ` set (nodes workflow)) (dependencies n)))
              (nodes workflow))"
    unfolding e using C missingDependencyErrors_eq [of workflow] by simp
  have p3: "errors (validateWorkflow workflow) \<noteq> [] \<longleftrightarrow>
      (\<exists>x. (x, x) \<in> ?E\<^sup>+) \<or> hasDanglingDependency workflow"
    using c0 m0 by (simp add: e)
  have "(x, x) \<in> (dependsOn workflow)\<^sup>+" if "(x, x) \<in> ?E\<^sup>+" for x
    using that trancl_mono [OF _ firstDependsOn_subset] by blast
  then have p4: "errors (validateWorkflow workflow) \<noteq> [] \<longrightarrow>
      hasDependencyCycle workflow \<or> hasDanglingDependency workflow"
    unfolding p3 hasDependencyCycle_def by blast
  have p5: "?E = dependsOn workflow \<and>
      (errors (validateWorkflow workflow) \<noteq> [] \<longleftrightarrow>
         hasDependencyCycle workflow \<or> hasDanglingDependency workflow)"
    if "distinct (map node_id (nodes workflow))"
    using p3 firstDependsOn_distinct [OF that] by (simp add: hasDependencyCycle_def)
  from p1 v p3 p4 p5 show ?thesis by blast
qed

lemma validate_cyclicWorkflow:
  "validateWorkflow cyclicWorkflow =
     \<lparr>valid = False,
      errors =
        [''Circular dependency detected involving node: A'',
         ''Circular dependency detected involving node: B'',
         ''Circular dependency detected involving node: C'',
         ''Node C depends on non-existent node: Z'']\<rparr>"
  by (simp add: validateWorkflow_def cyclicWorkflow_def noPolicyNode_def nodeB_def nodeC_def
        hasCycle.simps missingDependencyErrors_def Let_def)

theorem validateWorkflow_amended_witness:
  "distinct (map node_id (nodes cyclicWorkflow)) \<and>
   errors (validateWorkflow cyclicWorkflow) \<noteq> [] \<and>
   (hasDependencyCycle cyclicWorkflow \<or> hasDanglingDependency cyclicWorkflow) \<and>
   firstDependsOn cyclicWorkflow = dependsOn cyclicWorkflow \<and>
   map (\<lambda>n. ''Circular dependency detected involving node: '' @ node_id n)
     (filter (\<lambda>n. reachesCycle (firstDependsOn cyclicWorkflow) (node_id n)) (nodes cyclicWorkflow))
     = [''Circular dependency detected involving node: A'',
        ''Circular dependency detected involving node: B'',
        ''Circular dependency detected involving node: C'']"
proof -
  have d: "distinct (map node_id (nodes cyclicWorkflow))"
    by (simp add: cyclicWorkflow_def noPolicyNode_def nodeB_def nodeC_def)
  note t = validateWorkflow_amended [of cyclicWorkflow]
  have e: "errors (validateWorkflow cyclicWorkflow) \<noteq> []"
    by (simp add: validate_cyclicWorkflow)
  from t e have a: "hasDependencyCycle cyclicWorkflow \<or> hasDanglingDependency cyclicWorkflow"
    by blast
  from t d have b: "firstDependsOn cyclicWorkflow = dependsOn cyclicWorkflow" by blast
  let ?C = "map (\<lambda>n. ''Circular dependency detected involving node: '' @ node_id n)
     (filter (\<lambda>n. reachesCycle (firstDependsOn cyclicWorkflow) (node_id n)) (nodes cyclicWorkflow))"
  let ?M = "concat (map (\<lambda>n.
                map (\<lambda>dep. ''Node '' @ node_id n @ '' depends on non-existent node: '' @ dep)
                  (filter (\<lambda>dep. dep \<notin> node_id ` set (nodes cyclicWorkflow)) (dependencies n)))
              (nodes cyclicWorkflow))"
  from t have "errors (validateWorkflow cyclicWorkflow) = ?C @ ?M" by (rule conjunct1)
  moreover have "?M = [''Node C depends on non-existent node: Z'']"
    by (simp add: cyclicWorkflow_def noPolicyNode_def nodeB_def nodeC_def)
  ultimately have "?C @ [''Node C depends on non-existent node: Z'']
      = [''Circular dependency detected involving node: A'',
         ''Circular dependency detected involving node: B'',
         ''Circular dependency detected involving node: C''] @
        [''Node C depends on non-existent node: Z'']"
    by (simp add: validate_cyclicWorkflow)
  then have c: "?C = [''Circular dependency detected involving node: A'',
         ''Circular dependency detected involving node: B'',
         ''Circular dependency detected involving node: C'']"
    by (simp only: append_same_eq)
  from d e a b c show ?thesis by blast
qed

end
